theory Spec2Isabelle
  imports Main "HOL-Library.Word" "HOL-Library.Log_Nat"
begin

unbundle bit_operations_syntax

section \<open>The C++ \<open>double\<close> type\<close>

text \<open>
  \<open>set_freq_Hz\<close> computes the feedback ratio in \<open>double\<close>. A \<open>double\<close> value is
  modelled by the rational number it denotes, and every floating-point operation is the
  exact operation followed by rounding to the nearest value with a \<open>p\<close>-bit significand,
  ties to even. The precision \<open>p\<close> is a parameter of the model: \<open>p = 53\<close> is IEEE
  binary64 (ARM, ESP32 and most other Arduino cores), \<open>p = 24\<close> is binary32, which is
  what \<open>double\<close> means on the 8-bit AVR cores. The exponent range is not modelled:
  every value that occurs below is 0 or lies between \<open>2^-52\<close> and \<open>2^35\<close>, far inside
  the normal range of both formats.
\<close>

type_synonym u8 = "8 word"
type_synonym u32 = "32 word"

text \<open>The binary exponent of a positive rational: \<open>2^e \<le> x < 2^(e+1)\<close>.\<close>

definition bexp :: "rat \<Rightarrow> int" where
  "bexp x = (let (n, d) = quotient_of x; k = bitlen n - bitlen d
             in if 2 powi k \<le> x then k else k - 1)"

text \<open>Rounding to the nearest integer, ties to the even one.\<close>

definition rhe :: "rat \<Rightarrow> int" where
  "rhe q = (let f = \<lfloor>q\<rfloor>; r = q - of_int f
            in if r < 1 / 2 then f
               else if 1 / 2 < r then f + 1
               else if even f then f else f + 1)"

text \<open>The unit in the last place of the binade of \<open>x\<close>, for a \<open>p\<close>-bit significand.\<close>

definition ulp :: "nat \<Rightarrow> rat \<Rightarrow> rat" where
  "ulp p x = 2 powi (bexp \<bar>x\<bar> - int p + 1)"

definition rnd :: "nat \<Rightarrow> rat \<Rightarrow> rat" where
  "rnd p x = (if x = 0 then 0
              else sgn x * (of_int (rhe (\<bar>x\<bar> / ulp p x)) * ulp p x))"

text \<open>The values a \<open>p\<close>-bit format holds.\<close>

definition representable :: "nat \<Rightarrow> rat \<Rightarrow> bool" where
  "representable p x \<longleftrightarrow> (\<exists>m j. \<bar>m\<bar> < 2 ^ p \<and> x = of_int m * 2 powi j)"

text \<open>A decimal literal, the arithmetic operators and the conversions of C++.\<close>

definition double_lit :: "nat \<Rightarrow> rat \<Rightarrow> rat" where
  "double_lit p q = rnd p q"

definition u32_to_double :: "nat \<Rightarrow> u32 \<Rightarrow> rat" where
  "u32_to_double p w = rnd p (of_nat (unat w))"

definition fmul :: "nat \<Rightarrow> rat \<Rightarrow> rat \<Rightarrow> rat" where
  "fmul p x y = rnd p (x * y)"

definition fdiv :: "nat \<Rightarrow> rat \<Rightarrow> rat \<Rightarrow> rat" where
  "fdiv p x y = rnd p (x / y)"

definition fsub :: "nat \<Rightarrow> rat \<Rightarrow> rat \<Rightarrow> rat" where
  "fsub p x y = rnd p (x - y)"

text \<open>
  Conversion of a \<open>double\<close> to \<open>uint32_t\<close> discards the fractional part (truncation
  towards zero). C++ leaves the conversion undefined when the truncated value is not in
  \<open>0 .. 2^32 - 1\<close>; \<open>MSNA_in_range\<close> and \<open>MSNAb_in_range\<close> below show that this never
  happens in \<open>set_freq_Hz\<close>.
\<close>

definition double_trunc :: "rat \<Rightarrow> int" where
  "double_trunc x = (if x < 0 then - \<lfloor>- x\<rfloor> else \<lfloor>x\<rfloor>)"

definition double_to_u32 :: "rat \<Rightarrow> u32" where
  "double_to_u32 x = word_of_int (double_trunc x)"

section \<open>The register calculation of \<open>set_freq_Hz\<close>\<close>

text \<open>\<open>#define CorrFact 0.999658117\<close>\<close>

definition CorrFact :: "nat \<Rightarrow> rat" where
  "CorrFact p = double_lit p (999658117 / 1000000000)"

text \<open>\<open>#define MSNAc 1048575UL\<close>\<close>

definition MSNAc :: u32 where
  "MSNAc = 1048575"

text \<open>\<open>double MSNA = fout_Hz * CorrFact * 6.0 / 25000000.0;\<close>\<close>

definition MSNA :: "nat \<Rightarrow> u32 \<Rightarrow> rat" where
  "MSNA p fout_Hz =
     fdiv p (fmul p (fmul p (u32_to_double p fout_Hz) (CorrFact p)) (double_lit p 6))
            (double_lit p 25000000)"

text \<open>\<open>uint32_t MSNAa = MSNA;\<close>\<close>

definition MSNAa :: "nat \<Rightarrow> u32 \<Rightarrow> u32" where
  "MSNAa p fout_Hz = double_to_u32 (MSNA p fout_Hz)"

text \<open>\<open>uint32_t MSNAb = (double)(MSNA - MSNAa) * (double)MSNAc;\<close>\<close>

definition MSNAb :: "nat \<Rightarrow> u32 \<Rightarrow> u32" where
  "MSNAb p fout_Hz =
     double_to_u32
       (fmul p (fsub p (MSNA p fout_Hz) (u32_to_double p (MSNAa p fout_Hz)))
               (u32_to_double p MSNAc))"

text \<open>
  The packing, in \<open>uint32_t\<close> arithmetic:
  \<open>MSNA_P1 = 128 * MSNAa + 128 * MSNAb / MSNAc - 512\<close>,
  \<open>MSNA_P2 = 128 * MSNAb - MSNAc * (128 * MSNAb / MSNAc)\<close>, \<open>MSNA_P3 = MSNAc\<close>.
\<close>

definition pack_P1 :: "u32 \<Rightarrow> u32 \<Rightarrow> u32" where
  "pack_P1 a b = 128 * a + 128 * b div MSNAc - 512"

definition pack_P2 :: "u32 \<Rightarrow> u32" where
  "pack_P2 b = 128 * b - MSNAc * (128 * b div MSNAc)"

definition MSNA_P1 :: "nat \<Rightarrow> u32 \<Rightarrow> u32" where
  "MSNA_P1 p fout_Hz = pack_P1 (MSNAa p fout_Hz) (MSNAb p fout_Hz)"

definition MSNA_P2 :: "nat \<Rightarrow> u32 \<Rightarrow> u32" where
  "MSNA_P2 p fout_Hz = pack_P2 (MSNAb p fout_Hz)"

definition MSNA_P3 :: u32 where
  "MSNA_P3 = MSNAc"


section \<open>The two-wire bus\<close>

text \<open>
  The \<open>Wire\<close> object and the timer are the only things \<open>set_freq_Hz\<close> touches outside
  its own locals. The bus is modelled by the list of calls made on it so far, oldest
  first. \<open>RequestFrom\<close> is the read primitive of \<open>Wire\<close>; it is part of the interface
  although the library never calls it.
\<close>

datatype event =
    BeginTransmission u8
  | WireWrite u8
  | EndTransmission
  | RequestFrom u8 nat
  | DelayMicroseconds nat

type_synonym bus = "event list"

text \<open>
  \<open>Wire.write\<close> returns the number of bytes it accepted and \<open>Wire.endTransmission\<close>
  a status byte (0 for success, otherwise an error code). What they return is up to the
  transport and the device; it is a parameter of the model, a function of the calls made
  so far.
\<close>

record transport =
  write_result :: "bus \<Rightarrow> nat"
  end_result :: "bus \<Rightarrow> u8"

definition Wire_beginTransmission :: "u8 \<Rightarrow> bus \<Rightarrow> bus" where
  "Wire_beginTransmission addr s = s @ [BeginTransmission addr]"

definition Wire_write :: "transport \<Rightarrow> u8 \<Rightarrow> bus \<Rightarrow> nat \<times> bus" where
  "Wire_write T b s = (write_result T s, s @ [WireWrite b])"

definition Wire_endTransmission :: "transport \<Rightarrow> bus \<Rightarrow> u8 \<times> bus" where
  "Wire_endTransmission T s = (end_result T s, s @ [EndTransmission])"

definition delayMicroseconds :: "nat \<Rightarrow> bus \<Rightarrow> bus" where
  "delayMicroseconds us s = s @ [DelayMicroseconds us]"

text \<open>\<open>#define i2c_bus_address 0x60\<close>\<close>

definition i2c_bus_address :: u8 where
  "i2c_bus_address = 0x60"

text \<open>
  \<open>I2CFlexiWrite\<close> writes one byte to the register \<open>reg\<close> and, when
  \<open>include_b1_to_b7\<close> is set, seven more bytes, which the device stores in the
  following registers. The results of \<open>Wire.write\<close> and \<open>Wire.endTransmission\<close> are
  dropped (\<open>snd\<close>), the function is \<open>void\<close>.
\<close>

definition I2CFlexiWrite ::
  "transport \<Rightarrow> u8 \<Rightarrow> u8 \<Rightarrow> bool \<Rightarrow> u8 \<Rightarrow> u8 \<Rightarrow> u8 \<Rightarrow> u8 \<Rightarrow> u8 \<Rightarrow> u8 \<Rightarrow> u8 \<Rightarrow> bus \<Rightarrow> bus" where
  "I2CFlexiWrite T reg b0 include_b1_to_b7 b1 b2 b3 b4 b5 b6 b7 s =
     (let s = Wire_beginTransmission i2c_bus_address s;
          s = snd (Wire_write T reg s);
          s = snd (Wire_write T b0 s);
          s = (if include_b1_to_b7 then
                 (let s = snd (Wire_write T b1 s);
                      s = snd (Wire_write T b2 s);
                      s = snd (Wire_write T b3 s);
                      s = snd (Wire_write T b4 s);
                      s = snd (Wire_write T b5 s);
                      s = snd (Wire_write T b6 s);
                      s = snd (Wire_write T b7 s)
                  in s)
               else s);
          s = snd (Wire_endTransmission T s)
      in s)"

text \<open>The call with the default arguments: \<open>I2CFlexiWrite(reg, b0)\<close>.\<close>

definition I2CFlexiWrite1 :: "transport \<Rightarrow> u8 \<Rightarrow> u8 \<Rightarrow> bus \<Rightarrow> bus" where
  "I2CFlexiWrite1 T reg b0 s = I2CFlexiWrite T reg b0 False 0 0 0 0 0 0 0 s"

section \<open>The bytes of the feedback multisynth registers\<close>

text \<open>\<open>(uint8_t) ((x >> n) & m)\<close>\<close>

definition byte_of :: "u32 \<Rightarrow> nat \<Rightarrow> u32 \<Rightarrow> u8" where
  "byte_of x n m = ucast (drop_bit n x AND m)"

text \<open>
  Register 31:
  \<open>(uint8_t) ((MSNA_P3>>12) & 0xF0) + (uint8_t) ((MSNA_P2>>16) & 0x0F)\<close>.
  The two \<open>uint8_t\<close> operands are promoted to \<open>int\<close>, added there, and the sum is
  converted back to \<open>uint8_t\<close> when it is passed to \<open>I2CFlexiWrite\<close>.
\<close>

definition reg31 :: "u32 \<Rightarrow> u32 \<Rightarrow> u8" where
  "reg31 P2 P3 = word_of_int (uint (byte_of P3 12 0xF0) + uint (byte_of P2 16 0x0F))"

section \<open>\<open>set_freq_Hz\<close>\<close>

definition set_freq_Hz :: "nat \<Rightarrow> transport \<Rightarrow> u32 \<Rightarrow> bus \<Rightarrow> bus" where
  "set_freq_Hz p T fout_Hz s =
     (let s = I2CFlexiWrite1 T 24 0x00 s;
          s = I2CFlexiWrite1 T 3 0xFF s;
          s = I2CFlexiWrite T 16 0x80 True 0x80 0x80 0x80 0x80 0x80 0x80 0x80 s;
          s = I2CFlexiWrite1 T 15 0x00 s;
          s = I2CFlexiWrite1 T 183 0x2 s;
          s = I2CFlexiWrite T 42 0 True 1 0 1 0 0 0 0 s;
          P1 = MSNA_P1 p fout_Hz;
          P2 = MSNA_P2 p fout_Hz;
          P3 = MSNA_P3;
          s = I2CFlexiWrite T 26
                (byte_of P3 8 0xFF)
                True
                (byte_of P3 0 0xFF)
                (byte_of P1 16 0x03)
                (byte_of P1 8 0xFF)
                (byte_of P1 0 0xFF)
                (reg31 P2 P3)
                (byte_of P2 8 0xFF)
                (byte_of P2 0 0xFF)
                s;
          s = I2CFlexiWrite1 T 16 0x4F s;
          s = delayMicroseconds 500 s;
          s = I2CFlexiWrite1 T 177 0x20 s;
          s = I2CFlexiWrite1 T 3 0x00 s
      in s)"

section \<open>Reading a bus history as register writes\<close>

text \<open>
  A write transaction is what lies between a \<open>BeginTransmission\<close> and the next
  \<open>EndTransmission\<close>: the first byte is the register address, the others are the data.
  \<open>transactions\<close> collects them in order; \<open>cur\<close> holds the bytes of the transaction
  that is open, if one is.
\<close>

fun scan :: "u8 list option \<Rightarrow> event list \<Rightarrow> (u8 \<times> u8 list) list" where
  "scan cur [] = []"
| "scan cur (BeginTransmission a # es) = scan (Some []) es"
| "scan (Some bs) (WireWrite b # es) = scan (Some (bs @ [b])) es"
| "scan None (WireWrite b # es) = scan None es"
| "scan (Some (r # ds)) (EndTransmission # es) = (r, ds) # scan None es"
| "scan cur (EndTransmission # es) = scan None es"
| "scan cur (e # es) = scan cur es"

definition transactions :: "event list \<Rightarrow> (u8 \<times> u8 list) list" where
  "transactions es = scan None es"

text \<open>
  The registers a transaction stores into: the device increments the address after
  every data byte.
\<close>

fun written_by :: "u8 \<Rightarrow> u8 list \<Rightarrow> u8 set" where
  "written_by r [] = {}"
| "written_by r (d # ds) = insert r (written_by (r + 1) ds)"

fun registers_written :: "(u8 \<times> u8 list) list \<Rightarrow> u8 set" where
  "registers_written [] = {}"
| "registers_written ((r, ds) # ts) = written_by r ds \<union> registers_written ts"

text \<open>
  The register image of the device: each data byte of a transaction is stored at the
  current address, which then moves on by one. \<open>register_image ts m\<close> is the image
  after the transactions \<open>ts\<close>, starting from the image \<open>m\<close>.
\<close>

fun store :: "u8 \<Rightarrow> u8 list \<Rightarrow> (u8 \<rightharpoonup> u8) \<Rightarrow> (u8 \<rightharpoonup> u8)" where
  "store r [] m = m"
| "store r (d # ds) m = store (r + 1) ds (m(r \<mapsto> d))"

fun register_image :: "(u8 \<times> u8 list) list \<Rightarrow> (u8 \<rightharpoonup> u8) \<Rightarrow> (u8 \<rightharpoonup> u8)" where
  "register_image [] m = m"
| "register_image ((r, ds) # ts) m = register_image ts (store r ds m)"

definition is_read :: "event \<Rightarrow> bool" where
  "is_read e = (case e of RequestFrom a n \<Rightarrow> True | _ \<Rightarrow> False)"

definition is_delay :: "event \<Rightarrow> bool" where
  "is_delay e = (case e of DelayMicroseconds n \<Rightarrow> True | _ \<Rightarrow> False)"

text \<open>The events of one write transaction.\<close>

definition txn :: "u8 \<Rightarrow> u8 list \<Rightarrow> event list" where
  "txn reg bs = BeginTransmission i2c_bus_address # WireWrite reg # map WireWrite bs @ [EndTransmission]"


text \<open>The eight bytes of the burst that starts at register 26.\<close>

definition feedback_bytes :: "u32 \<Rightarrow> u32 \<Rightarrow> u32 \<Rightarrow> u8 list" where
  "feedback_bytes P1 P2 P3 =
     [byte_of P3 8 0xFF, byte_of P3 0 0xFF, byte_of P1 16 0x03, byte_of P1 8 0xFF,
      byte_of P1 0 0xFF, reg31 P2 P3, byte_of P2 8 0xFF, byte_of P2 0 0xFF]"

text \<open>A transport on which every call succeeds, and one on which every call fails.\<close>

definition ideal_transport :: transport where
  "ideal_transport = \<lparr>write_result = (\<lambda>s. 1), end_result = (\<lambda>s. 0)\<rparr>"


text \<open>
  The registers the library is allowed to touch: output enable control (3), PLL input
  source (15), CLK0 to CLK7 control (16 to 23), CLK3 to CLK0 disable state (24),
  multisynth NA (26 to 33), multisynth 0 with its output divider (42 to 49), PLL reset
  (177) and crystal load capacitance (183).
\<close>

definition fixed_registers :: "u8 set" where
  "fixed_registers =
     {3, 15, 16, 17, 18, 19, 20, 21, 22, 23, 24, 26, 27, 28, 29, 30, 31, 32, 33,
      42, 43, 44, 45, 46, 47, 48, 49, 177, 183}"

text \<open>
  The frequency rebuilt from the synthesizer fraction:
  \<open>reference_hz * (a + b/c) / output_divide_ratio / correction_factor\<close>, in exact
  arithmetic.
\<close>

definition reconstructed :: "u32 \<Rightarrow> u32 \<Rightarrow> rat" where
  "reconstructed a b =
     25000000 * (of_nat (unat a) + of_nat (unat b) / of_nat (unat MSNAc)) / 6
       / (999658117 / 1000000000)"

text \<open>The supported band: 100 MHz to 150 MHz.\<close>

definition in_band :: "u32 \<Rightarrow> bool" where
  "in_band fout_Hz \<longleftrightarrow> 100000000 \<le> unat fout_Hz \<and> unat fout_Hz \<le> 150000000"

section \<open>Properties of rounding\<close>

lemma powi_nat_bounds:
  fixes n :: int
  assumes "0 < n"
  shows "(2::rat) powi (bitlen n - 1) \<le> of_int n" "(of_int n :: rat) < 2 powi bitlen n"
proof -
  have b1: "1 \<le> bitlen n"
    using assms bitlen_eq_zero_iff [of n] bitlen_nonneg [of n] by simp
  have "2 ^ nat (bitlen n - 1) \<le> n" "n < 2 ^ nat (bitlen n)"
    using bitlen_bounds [OF assms] by simp_all
  then have "(of_int (2 ^ nat (bitlen n - 1)) :: rat) \<le> of_int n"
    "(of_int n :: rat) < of_int (2 ^ nat (bitlen n))"
    by (simp_all only: of_int_le_iff of_int_less_iff)
  then show "(2::rat) powi (bitlen n - 1) \<le> of_int n" "(of_int n :: rat) < 2 powi bitlen n"
    using b1 by (simp_all add: power_int_def)
qed

lemma bexp_bounds:
  assumes "0 < x"
  shows "2 powi bexp x \<le> x \<and> x < 2 powi (bexp x + 1)"
proof -
  obtain n d where q: "quotient_of x = (n, d)" by (cases "quotient_of x")
  have d: "0 < d" using q by (rule quotient_of_denom_pos)
  have x: "x = of_int n / of_int d" using q by (rule quotient_of_div)
  have n: "0 < n" using assms d x by (simp add: zero_less_divide_iff)
  define bn where "bn = bitlen n"
  define bd where "bd = bitlen d"
  note nbr = powi_nat_bounds [OF n, folded bn_def]
  note dbr = powi_nat_bounds [OF d, folded bd_def]
  have dpos: "(0::rat) < of_int d" using d by simp
  have "(2::rat) powi (bn - bd - 1) = 2 powi (bn - 1) / 2 powi bd"
    by (simp add: power_int_diff)
  also have "\<dots> \<le> of_int n / 2 powi bd"
    using nbr(1) by (simp add: divide_right_mono)
  also have "\<dots> < of_int n / of_int d"
    using dbr(2) n dpos by (simp add: divide_strict_left_mono)
  finally have lo: "(2::rat) powi (bn - bd - 1) < x" using x by simp
  have "x = of_int n / of_int d" by (rule x)
  also have "\<dots> \<le> of_int n / 2 powi (bd - 1)"
    using dbr(1) n by (intro frac_le) simp_all
  also have "\<dots> < 2 powi bn / 2 powi (bd - 1)"
    using nbr(2) by (simp add: divide_strict_right_mono)
  also have "\<dots> = 2 powi (bn - (bd - 1))"
    by (simp add: power_int_diff)
  also have "bn - (bd - 1) = bn - bd + 1" by simp
  finally have hi: "x < 2 powi (bn - bd + 1)" .
  show ?thesis
    using lo hi q by (auto simp: bexp_def Let_def bn_def bd_def not_le intro: less_imp_le)
qed

lemma powi_less_cancel:
  "(2::rat) powi a < 2 powi b \<Longrightarrow> a < b"
  using power_int_increasing [of b a "2::rat"] by (cases "a < b") simp_all

lemma bexp_unique:
  assumes "2 powi e \<le> x" "x < 2 powi (e + 1)"
  shows "bexp x = e"
proof -
  have x: "0 < x" using assms(1) by (rule less_le_trans [rotated]) simp
  note b = bexp_bounds [OF x]
  have "(2::rat) powi e < 2 powi (bexp x + 1)" using assms(1) b by linarith
  then have 1: "e < bexp x + 1" by (rule powi_less_cancel)
  have "(2::rat) powi bexp x < 2 powi (e + 1)" using assms(2) b by linarith
  then have 2: "bexp x < e + 1" by (rule powi_less_cancel)
  show ?thesis using 1 2 by linarith
qed

lemma rhe_of_int [simp]: "rhe (of_int k) = k"
  by (simp add: rhe_def)

lemma rhe_err: "\<bar>of_int (rhe q) - q\<bar> \<le> 1 / 2"
proof -
  have "of_int \<lfloor>q\<rfloor> \<le> q" "q < of_int \<lfloor>q\<rfloor> + 1"
    by linarith+
  then show ?thesis
    by (auto simp: rhe_def Let_def)
qed

lemma rhe_ge: "of_int k \<le> q \<Longrightarrow> k \<le> rhe q"
proof -
  assume "of_int k \<le> q"
  then have "k \<le> \<lfloor>q\<rfloor>" by (simp add: le_floor_iff)
  then show ?thesis by (auto simp: rhe_def Let_def)
qed

lemma rhe_le: "q \<le> of_int k \<Longrightarrow> rhe q \<le> k"
proof -
  assume a: "q \<le> of_int k"
  show ?thesis
  proof (cases "q = of_int k")
    case True
    then show ?thesis by simp
  next
    case False
    with a have "q < of_int k" by simp
    then have "\<lfloor>q\<rfloor> < k" by (simp add: floor_less_iff)
    then show ?thesis by (auto simp: rhe_def Let_def)
  qed
qed

lemma ulp_pos [simp]: "0 < ulp p x"
  by (simp add: ulp_def)

lemma ulp_nonzero [simp]: "ulp p x \<noteq> 0"
  by (simp add: ulp_def)

lemma rnd_pos_eq: "0 < x \<Longrightarrow> rnd p x = of_int (rhe (x / ulp p x)) * ulp p x"
  by (simp add: rnd_def)

lemma ulp_eval:
  "2 powi e \<le> x \<Longrightarrow> x < 2 powi (e + 1) \<Longrightarrow> ulp p x = 2 powi (e - int p + 1)"
proof -
  assume a: "2 powi e \<le> x" "x < 2 powi (e + 1)"
  have "0 < x" using a(1) by (rule less_le_trans [rotated]) simp
  then show ?thesis using bexp_unique [OF a] by (simp add: ulp_def)
qed

lemma rnd_eval:
  assumes "2 powi e \<le> x" "x < 2 powi (e + 1)"
  shows "rnd p x = of_int (rhe (x / 2 powi (e - int p + 1))) * 2 powi (e - int p + 1)"
proof -
  have "0 < x" using assms(1) by (rule less_le_trans [rotated]) simp
  then show ?thesis using ulp_eval [OF assms] by (simp add: rnd_pos_eq)
qed

lemma ulp_le: "0 < x \<Longrightarrow> ulp p x \<le> x * 2 powi (1 - int p)"
proof -
  assume x: "0 < x"
  have "ulp p x = 2 powi bexp x * 2 powi (1 - int p)"
    using x by (simp add: ulp_def power_int_add [symmetric] algebra_simps)
  also have "\<dots> \<le> x * 2 powi (1 - int p)"
    using bexp_bounds [OF x] by (simp add: mult_right_mono)
  finally show ?thesis .
qed

lemma rnd_abs_err: "0 < x \<Longrightarrow> \<bar>rnd p x - x\<bar> \<le> ulp p x / 2"
proof -
  assume x: "0 < x"
  define u where "u = ulp p x"
  have u: "0 < u" by (simp add: u_def)
  have "rnd p x - x = (of_int (rhe (x / u)) - x / u) * u"
    using x u unfolding u_def by (simp add: rnd_pos_eq left_diff_distrib)
  then have "\<bar>rnd p x - x\<bar> = \<bar>of_int (rhe (x / u)) - x / u\<bar> * u"
    using u by (simp add: abs_mult)
  also have "\<dots> \<le> 1 / 2 * u"
    using rhe_err [of "x / u"] u by (intro mult_right_mono) simp_all
  finally show ?thesis by (simp add: u_def)
qed

lemma rnd_rel_err: "0 \<le> x \<Longrightarrow> \<bar>rnd p x - x\<bar> \<le> x * 2 powi (- int p)"
proof (cases "x = 0")
  case True
  then show ?thesis by (simp add: rnd_def)
next
  case False
  assume "0 \<le> x"
  with False have x: "0 < x" by simp
  have "(2::rat) powi (1 - int p) = 2 * 2 powi (- int p)"
    using power_int_add [of "2::rat" 1 "- int p"] by simp
  then have "ulp p x / 2 \<le> x * 2 powi (- int p)"
    using ulp_le [OF x, of p] by simp
  with rnd_abs_err [OF x, of p] show ?thesis by linarith
qed

lemma rhe_eval: "\<bar>q - of_int k\<bar> < 1 / 2 \<Longrightarrow> rhe q = k"
proof -
  assume a: "\<bar>q - of_int k\<bar> < 1 / 2"
  show ?thesis
  proof (cases "of_int k \<le> q")
    case True
    with a have "\<lfloor>q\<rfloor> = k" by (intro floor_unique) simp_all
    with a True show ?thesis by (simp add: rhe_def Let_def)
  next
    case False
    with a have "\<lfloor>q\<rfloor> = k - 1" by (intro floor_unique) simp_all
    with a False show ?thesis by (simp add: rhe_def Let_def)
  qed
qed

lemma rnd_eval_nearest:
  assumes "2 powi e \<le> x" "x < 2 powi (e + 1)" "\<bar>x / 2 powi (e - int p + 1) - of_int k\<bar> < 1 / 2"
  shows "rnd p x = of_int k * 2 powi (e - int p + 1)"
  using rnd_eval [OF assms(1,2), of p] rhe_eval [OF assms(3)] by simp

lemma double_trunc_eval:
  "of_int k \<le> x \<Longrightarrow> x < of_int k + 1 \<Longrightarrow> 0 \<le> k \<Longrightarrow> double_trunc x = k"
  by (simp add: double_trunc_def floor_unique)

lemma double_to_u32_eval:
  "of_int k \<le> x \<Longrightarrow> x < of_int k + 1 \<Longrightarrow> 0 \<le> k \<Longrightarrow> double_to_u32 x = word_of_int k"
  by (simp add: double_to_u32_def double_trunc_eval)

lemma representable_0 [simp]: "representable p 0"
  unfolding representable_def by (rule exI [of _ 0], rule exI [of _ 0]) simp

lemma representable_scaled: "\<bar>m\<bar> < 2 ^ p \<Longrightarrow> representable p (of_int m * 2 powi j)"
  unfolding representable_def by blast

lemma representable_int: "\<bar>m\<bar> < 2 ^ p \<Longrightarrow> representable p (of_int m)"
  using representable_scaled [of m p 0] by simp

lemma powi_div: "(2::rat) powi a / 2 powi b = 2 powi (a - b)"
  by (simp add: power_int_diff)

lemma powi_mult: "(2::rat) powi a * 2 powi b = 2 powi (a + b)"
  by (simp add: power_int_add)

lemma ulp_nonneg [simp]: "0 \<le> ulp p x"
  by (simp add: ulp_def)

lemma scaled_bounds:
  assumes "0 < x" and that: "0 < (p::nat)"
  shows "2 ^ (p - 1) \<le> x / ulp p x \<and> x / ulp p x < 2 ^ p"
proof -
  note b = bexp_bounds [OF assms(1)]
  have u: "ulp p x = 2 powi (bexp x - int p + 1)" using assms(1) by (simp add: ulp_def)
  have "bexp x - (bexp x - int p + 1) = int (p - 1)" using that by (simp add: of_nat_diff)
  then have e1: "(2::rat) powi bexp x / ulp p x = 2 ^ (p - 1)"
    unfolding u powi_div by (simp only: power_int_of_nat)
  have "bexp x + 1 - (bexp x - int p + 1) = int p" by simp
  then have e2: "(2::rat) powi (bexp x + 1) / ulp p x = 2 ^ p"
    unfolding u powi_div by (simp only: power_int_of_nat)
  have "2 powi bexp x / ulp p x \<le> x / ulp p x"
    using b by (intro divide_right_mono) simp_all
  moreover have "x / ulp p x < 2 powi (bexp x + 1) / ulp p x"
    using b by (intro divide_strict_right_mono) simp_all
  ultimately show ?thesis using e1 e2 by simp
qed

lemma representable_rnd:
  assumes "0 \<le> x" "0 < p"
  shows "representable p (rnd p x)"
proof (cases "x = 0")
  case True
  then show ?thesis by (simp add: rnd_def)
next
  case False
  with assms have x: "0 < x" by simp
  define k where "k = rhe (x / ulp p x)"
  have r: "rnd p x = of_int k * ulp p x" using x by (simp add: rnd_pos_eq k_def)
  note sb = scaled_bounds [OF x assms(2)]
  have "(of_int (2 ^ (p - 1)) :: rat) \<le> x / ulp p x" using sb by simp
  then have k1: "2 ^ (p - 1) \<le> k" unfolding k_def by (rule rhe_ge)
  have "x / ulp p x \<le> (of_int (2 ^ p) :: rat)" using sb by simp
  then have k2: "k \<le> 2 ^ p" unfolding k_def by (rule rhe_le)
  have k0: "0 \<le> k" using k1 by (rule order_trans [rotated]) simp
  show ?thesis
  proof (cases "k = 2 ^ p")
    case True
    have "(of_int (2 ^ p) :: rat) = 2 powi int p" by simp
    moreover have "int p + (bexp x - int p + 1) = bexp x + 1" by simp
    ultimately have "rnd p x = of_int 1 * 2 powi (bexp x + 1)"
      using x unfolding r True ulp_def by (simp only: powi_mult abs_of_pos of_int_1 mult_1)
    moreover have "\<bar>1::int\<bar> < 2 ^ p" using assms(2) by simp
    ultimately show ?thesis using representable_scaled [of 1 p "bexp x + 1"] by simp
  next
    case False
    with k2 k0 have "\<bar>k\<bar> < 2 ^ p" by simp
    then show ?thesis unfolding r ulp_def by (rule representable_scaled)
  qed
qed

lemma representable_pos_obtain:
  assumes "representable p x" "0 < x"
  obtains m j where "0 < m" "m < 2 ^ p" "x = of_int m * 2 powi j"
proof -
  from assms(1) obtain m j where mj: "\<bar>m\<bar> < 2 ^ p" "x = of_int m * 2 powi j"
    unfolding representable_def by blast
  have "0 < (of_int m :: rat)"
    using assms(2) unfolding mj(2) by (rule zero_less_mult_pos2) simp
  then have "0 < m" by simp
  with mj that show ?thesis by simp
qed

lemma rnd_id:
  assumes "representable p x" "0 \<le> x"
  shows "rnd p x = x"
proof (cases "x = 0")
  case True
  then show ?thesis by (simp add: rnd_def)
next
  case False
  with assms have x: "0 < x" by simp
  from assms(1) x obtain m j where mj: "0 < m" "m < 2 ^ p" "x = of_int m * 2 powi j"
    by (rule representable_pos_obtain)
  define e where "e = bexp x"
  have b: "2 powi e \<le> x" using bexp_bounds [OF x] by (simp add: e_def)
  have "(of_int m :: rat) < of_int (2 ^ p)" using mj(2) by (simp only: of_int_less_iff)
  then have "(of_int m :: rat) < 2 powi int p" by simp
  then have "x < 2 powi int p * 2 powi j"
    unfolding mj(3) by (intro mult_strict_right_mono) simp_all
  with b have "(2::rat) powi e < 2 powi (int p + j)" unfolding powi_mult by simp
  then have "e < int p + j" by (rule powi_less_cancel)
  then have d: "0 \<le> j - (e - int p + 1)" by simp
  define d where "d = nat (j - (e - int p + 1))"
  have jd: "j = int d + (e - int p + 1)" using d by (simp add: d_def)
  have u: "ulp p x = 2 powi (e - int p + 1)" using x by (simp add: ulp_def e_def)
  have "x = of_int m * (2 powi int d * 2 powi (e - int p + 1))"
    unfolding powi_mult mj(3) using jd by simp
  then have xe: "x = of_int (m * 2 ^ d) * ulp p x"
    unfolding u by simp
  have "x / ulp p x = of_int (m * 2 ^ d)"
    by (subst xe) simp
  then have "rhe (x / ulp p x) = m * 2 ^ d" by (simp only: rhe_of_int)
  then show ?thesis
    using x xe by (simp only: rnd_pos_eq)
qed

lemma representable_nonneg_obtain:
  assumes "representable p x" "0 \<le> x"
  obtains m j where "0 \<le> m" "m < 2 ^ p" "x = of_int m * 2 powi j"
proof (cases "x = 0")
  case True
  show ?thesis by (rule that [of 0 0]) (simp_all add: True)
next
  case False
  with assms have x: "0 < x" by simp
  from assms(1) x obtain m j where mj: "0 < m" "m < 2 ^ p" "x = of_int m * 2 powi j"
    by (rule representable_pos_obtain)
  then show ?thesis using that [of m j] by simp
qed

lemma floor_frac_scaled:
  fixes m :: int and n :: nat
  shows "\<lfloor>(of_int m :: rat) / 2 ^ n\<rfloor> = m div 2 ^ n"
    and "(of_int m :: rat) / 2 ^ n - of_int (m div 2 ^ n) = of_int (m mod 2 ^ n) / 2 ^ n"
proof -
  have p: "(2::rat) ^ n = of_int (2 ^ n)" by simp
  show "\<lfloor>(of_int m :: rat) / 2 ^ n\<rfloor> = m div 2 ^ n"
    unfolding p by (rule floor_divide_of_int_eq)
  have "m = m div 2 ^ n * 2 ^ n + m mod 2 ^ n" by (rule div_mult_mod_eq [symmetric])
  then have "(of_int m :: rat) = of_int (m div 2 ^ n) * 2 ^ n + of_int (m mod 2 ^ n)"
    by (metis of_int_add of_int_mult p)
  then show "(of_int m :: rat) / 2 ^ n - of_int (m div 2 ^ n) = of_int (m mod 2 ^ n) / 2 ^ n"
    by (simp add: field_simps)
qed

lemma representable_floor_frac:
  assumes "representable p x" "0 \<le> x"
  shows "representable p (of_int \<lfloor>x\<rfloor>)" "representable p (x - of_int \<lfloor>x\<rfloor>)"
proof -
  from assms obtain m j where mj: "0 \<le> m" "m < 2 ^ p" "x = of_int m * 2 powi j"
    by (rule representable_nonneg_obtain)
  have "representable p (of_int \<lfloor>x\<rfloor>) \<and> representable p (x - of_int \<lfloor>x\<rfloor>)"
  proof (cases "0 \<le> j")
    case True
    then have "x = of_int (m * 2 ^ nat j)"
      unfolding mj(3) by (simp add: power_int_def)
    then have "of_int \<lfloor>x\<rfloor> = x" by (metis floor_of_int)
    then have "representable p (of_int \<lfloor>x\<rfloor>) = representable p x"
      "x - of_int \<lfloor>x\<rfloor> = 0"
      by (simp_all only: diff_self)
    then show ?thesis using assms(1) by (simp only: representable_0 simp_thms)
  next
    case False
    define n where "n = nat (- j)"
    have j: "j = - int n" using False by (simp add: n_def)
    have xn: "x = of_int m / 2 ^ n"
      unfolding mj(3) j by (simp add: power_int_minus field_simps)
    have fl: "\<lfloor>x\<rfloor> = m div 2 ^ n" unfolding xn by (rule floor_frac_scaled(1))
    have "0 \<le> m div 2 ^ n" using mj(1) by (simp add: pos_imp_zdiv_nonneg_iff)
    moreover have "m div 2 ^ n \<le> m" using zdiv_mono2 [of m 1 "2 ^ n"] mj(1) by simp
    ultimately have "\<bar>m div 2 ^ n\<bar> < 2 ^ p" using mj(2) by simp
    then have 1: "representable p (of_int \<lfloor>x\<rfloor>)"
      unfolding fl by (rule representable_int)
    have "x - of_int \<lfloor>x\<rfloor> = of_int (m mod 2 ^ n) / 2 ^ n"
      unfolding xn floor_frac_scaled(1) by (rule floor_frac_scaled(2))
    then have fr: "x - of_int \<lfloor>x\<rfloor> = of_int (m mod 2 ^ n) * 2 powi j"
      unfolding j by (simp add: power_int_minus field_simps)
    have "0 \<le> m mod 2 ^ n" by simp
    moreover have "m mod 2 ^ n \<le> m" using mj(1) by (simp add: zmod_le_nonneg_dividend)
    ultimately have "\<bar>m mod 2 ^ n\<bar> < 2 ^ p" using mj(2) by simp
    then have 2: "representable p (x - of_int \<lfloor>x\<rfloor>)"
      unfolding fr by (rule representable_scaled)
    from 1 2 show ?thesis by simp
  qed
  then show "representable p (of_int \<lfloor>x\<rfloor>)" "representable p (x - of_int \<lfloor>x\<rfloor>)"
    by simp_all
qed

lemma powi_neg_le_half: "0 < p \<Longrightarrow> (2::rat) powi (- int p) \<le> 1 / 2"
  using power_int_increasing [of "- int p" "- 1" "2::rat"] by simp

lemma representable_lt_1:
  assumes "representable p x" "0 \<le> x" "x < 1" "0 < p"
  shows "x \<le> 1 - 2 powi (- int p)"
proof -
  from assms(1,2) obtain m j where mj: "0 \<le> m" "m < 2 ^ p" "x = of_int m * 2 powi j"
    by (rule representable_nonneg_obtain)
  show ?thesis
  proof (cases "- int p \<le> j")
    case True
    define d where "d = nat (j + int p)"
    have jd: "j + int p = int d" using True by (simp add: d_def)
    have "x * 2 powi int p = of_int m * (2 powi j * 2 powi int p)"
      unfolding mj(3) by simp
    also have "\<dots> = of_int m * 2 powi int d"
      unfolding powi_mult jd ..
    also have "\<dots> = of_int (m * 2 ^ d)" by simp
    finally have xs: "x * 2 powi int p = of_int (m * 2 ^ d)" .
    have "x * 2 powi int p < 1 * 2 powi int p"
      using assms(3) by (intro mult_strict_right_mono) simp_all
    then have "(of_int (m * 2 ^ d) :: rat) < of_int (2 ^ p)"
      unfolding xs by simp
    then have "m * 2 ^ d < 2 ^ p" by (simp only: of_int_less_iff)
    then have "m * 2 ^ d \<le> 2 ^ p - 1" by simp
    then have "(of_int (m * 2 ^ d) :: rat) \<le> of_int (2 ^ p - 1)" by (simp only: of_int_le_iff)
    then have "x * 2 powi int p \<le> 2 powi int p - 1"
      unfolding xs by simp
    then have "x * 2 powi int p * 2 powi (- int p) \<le> (2 powi int p - 1) * 2 powi (- int p)"
      by (intro mult_right_mono) simp_all
    moreover have "(2::rat) powi int p * 2 powi (- int p) = 1"
      unfolding powi_mult by simp
    ultimately show ?thesis
      by (simp add: mult.assoc left_diff_distrib)
  next
    case False
    then have "int p + j \<le> - 1" by simp
    then have h: "(2::rat) powi (int p + j) \<le> 2 powi (- 1)"
      by (intro power_int_increasing) simp_all
    have "(of_int m :: rat) \<le> of_int (2 ^ p)" using mj(2) by (simp only: of_int_le_iff)
    then have "(of_int m :: rat) \<le> 2 powi int p" by simp
    then have "x \<le> 2 powi int p * 2 powi j"
      unfolding mj(3) by (intro mult_right_mono) simp_all
    with h have "x \<le> 1 / 2" unfolding powi_mult by simp
    with powi_neg_le_half [OF assms(4)] show ?thesis by linarith
  qed
qed

section \<open>Analysis of the register calculation\<close>

lemma powi_le_24: "24 \<le> p \<Longrightarrow> (2::rat) powi (- int p) \<le> 1 / 16777216"
  using power_int_increasing [of "- int p" "- 24" "2::rat"] by simp

lemma rnd_between:
  assumes "24 \<le> p" "0 \<le> lo" "lo \<le> x" "x \<le> hi"
  shows "lo * (16777215 / 16777216) \<le> rnd p x" "rnd p x \<le> hi * (16777217 / 16777216)"
proof -
  have x: "0 \<le> x" using assms(2,3) by simp
  have "x * 2 powi (- int p) \<le> x * (1 / 16777216)"
    using powi_le_24 [OF assms(1)] x by (rule mult_left_mono)
  with rnd_rel_err [OF x, of p] have e: "\<bar>rnd p x - x\<bar> \<le> x / 16777216" by simp
  then have "x * (16777215 / 16777216) \<le> rnd p x" by linarith
  moreover have "lo * (16777215 / 16777216) \<le> x * (16777215 / 16777216)"
    using assms(3) by simp
  ultimately show "lo * (16777215 / 16777216) \<le> rnd p x" by simp
  from e have "rnd p x \<le> x * (16777217 / 16777216)" by linarith
  moreover have "x * (16777217 / 16777216) \<le> hi * (16777217 / 16777216)"
    using assms(4) by simp
  ultimately show "rnd p x \<le> hi * (16777217 / 16777216)" by simp
qed

lemma rnd_nonneg: "0 \<le> x \<Longrightarrow> 0 \<le> rnd p x"
proof -
  assume x: "0 \<le> x"
  show ?thesis
  proof (cases "x = 0")
    case True
    then show ?thesis by (simp add: rnd_def)
  next
    case False
    with x have "0 < x" by simp
    then have "rnd p x = of_int (rhe (x / ulp p x)) * ulp p x" by (rule rnd_pos_eq)
    moreover have "0 \<le> rhe (x / ulp p x)" using x by (intro rhe_ge) simp
    ultimately show ?thesis by simp
  qed
qed

lemma pow2_ge: "k \<le> p \<Longrightarrow> (2::int) ^ k \<le> 2 ^ p"
  by simp

lemma rnd_6: "24 \<le> p \<Longrightarrow> rnd p 6 = 6"
proof -
  assume p: "24 \<le> p"
  have "(2::int) ^ 24 \<le> 2 ^ p" using p by (rule pow2_ge)
  then have "\<bar>6::int\<bar> < 2 ^ p" by simp
  then have "representable p (of_int 6)" by (rule representable_int)
  then show ?thesis using rnd_id [of p 6] by simp
qed

lemma rnd_25000000: "24 \<le> p \<Longrightarrow> rnd p 25000000 = 25000000"
proof -
  assume p: "24 \<le> p"
  have "(2::int) ^ 24 \<le> 2 ^ p" using p by (rule pow2_ge)
  then have "\<bar>390625::int\<bar> < 2 ^ p" by simp
  then have "representable p (of_int 390625 * 2 powi 6)" by (rule representable_scaled)
  then show ?thesis using rnd_id [of p 25000000] by simp
qed

lemma rnd_1048575: "24 \<le> p \<Longrightarrow> rnd p 1048575 = 1048575"
proof -
  assume p: "24 \<le> p"
  have "(2::int) ^ 24 \<le> 2 ^ p" using p by (rule pow2_ge)
  then have "\<bar>1048575::int\<bar> < 2 ^ p" by simp
  then have "representable p (of_int 1048575)" by (rule representable_int)
  then show ?thesis using rnd_id [of p 1048575] by simp
qed

lemma MSNA_bounds:
  assumes "24 \<le> p"
  shows "of_nat (unat f) * (999658117 / 1000000000 * 6 / 25000000) * (9999997 / 10000000)
           \<le> MSNA p f"
    and "MSNA p f
           \<le> of_nat (unat f) * (999658117 / 1000000000 * 6 / 25000000) * (10000003 / 10000000)"
proof -
  define n :: rat where "n = of_nat (unat f)"
  define L :: rat where "L = 16777215 / 16777216"
  define U :: rat where "U = 16777217 / 16777216"
  define c0 :: rat where "c0 = 999658117 / 1000000000"
  have n0: "0 \<le> n" by (simp only: n_def of_nat_0_le_iff)
  have L0: "0 \<le> L" "0 \<le> U" "0 \<le> c0" by (simp_all add: L_def U_def c0_def)
  note rb = rnd_between [OF assms, folded L_def U_def]
  have x0: "n * L \<le> u32_to_double p f" "u32_to_double p f \<le> n * U"
    unfolding u32_to_double_def n_def [symmetric] using rb [OF n0 order_refl order_refl] by simp_all
  have cf: "c0 * L \<le> CorrFact p" "CorrFact p \<le> c0 * U"
    unfolding CorrFact_def double_lit_def c0_def [symmetric]
    using rb [OF L0(3) order_refl order_refl] by simp_all
  have x0n: "0 \<le> u32_to_double p f"
    unfolding u32_to_double_def n_def [symmetric] using n0 by (rule rnd_nonneg)
  have cfn: "0 \<le> CorrFact p" unfolding CorrFact_def double_lit_def by (rule rnd_nonneg) simp
  have p1: "n * L * (c0 * L) \<le> u32_to_double p f * CorrFact p"
    using x0(1) cf(1) n0 L0 x0n by (intro mult_mono) simp_all
  have p1': "u32_to_double p f * CorrFact p \<le> n * U * (c0 * U)"
    using x0(2) cf(2) n0 L0 x0n cfn by (intro mult_mono) simp_all
  have p1n: "0 \<le> n * L * (c0 * L)" using n0 L0 by simp
  have x1: "n * L * (c0 * L) * L \<le> fmul p (u32_to_double p f) (CorrFact p)"
    "fmul p (u32_to_double p f) (CorrFact p) \<le> n * U * (c0 * U) * U"
    unfolding fmul_def using rb [OF p1n p1 p1'] by simp_all
  have six: "double_lit p 6 = 6" unfolding double_lit_def using assms by (rule rnd_6)
  have ref: "double_lit p 25000000 = 25000000" unfolding double_lit_def using assms by (rule rnd_25000000)
  have p2: "n * L * (c0 * L) * L * 6 \<le> fmul p (u32_to_double p f) (CorrFact p) * 6"
    "fmul p (u32_to_double p f) (CorrFact p) * 6 \<le> n * U * (c0 * U) * U * 6"
    using x1 by simp_all
  have p2n: "0 \<le> n * L * (c0 * L) * L * 6" using n0 L0 by simp
  have e2: "fmul p (fmul p (u32_to_double p f) (CorrFact p)) (double_lit p 6)
      = rnd p (fmul p (u32_to_double p f) (CorrFact p) * 6)"
    by (simp only: fmul_def six)
  have x2: "n * L * (c0 * L) * L * 6 * L
      \<le> fmul p (fmul p (u32_to_double p f) (CorrFact p)) (double_lit p 6)"
    "fmul p (fmul p (u32_to_double p f) (CorrFact p)) (double_lit p 6)
      \<le> n * U * (c0 * U) * U * 6 * U"
    unfolding e2 by (rule rb(1) [OF p2n p2], rule rb(2) [OF p2n p2])
  have p3: "n * L * (c0 * L) * L * 6 * L / 25000000
      \<le> fmul p (fmul p (u32_to_double p f) (CorrFact p)) (double_lit p 6) / 25000000"
    "fmul p (fmul p (u32_to_double p f) (CorrFact p)) (double_lit p 6) / 25000000
      \<le> n * U * (c0 * U) * U * 6 * U / 25000000"
    by (rule divide_right_mono [OF x2(1)], simp, rule divide_right_mono [OF x2(2)], simp)
  have p3n: "0 \<le> n * L * (c0 * L) * L * 6 * L / 25000000" using n0 L0 by simp
  have x3: "n * L * (c0 * L) * L * 6 * L / 25000000 * L \<le> MSNA p f"
    "MSNA p f \<le> n * U * (c0 * U) * U * 6 * U / 25000000 * U"
    unfolding MSNA_def fdiv_def ref using rb [OF p3n p3] by simp_all
  have lo: "n * (999658117 / 1000000000 * 6 / 25000000) * (9999997 / 10000000)
      \<le> n * L * (c0 * L) * L * 6 * L / 25000000 * L"
    using n0 unfolding L_def c0_def by simp
  have hi: "n * U * (c0 * U) * U * 6 * U / 25000000 * U
      \<le> n * (999658117 / 1000000000 * 6 / 25000000) * (10000003 / 10000000)"
    using n0 unfolding U_def c0_def by simp
  show "of_nat (unat f) * (999658117 / 1000000000 * 6 / 25000000) * (9999997 / 10000000)
           \<le> MSNA p f"
    unfolding n_def [symmetric] using lo x3(1) by (rule order_trans)
  show "MSNA p f
           \<le> of_nat (unat f) * (999658117 / 1000000000 * 6 / 25000000) * (10000003 / 10000000)"
    unfolding n_def [symmetric] using x3(2) hi by (rule order_trans)
qed

lemma MSNA_nonneg: "0 \<le> MSNA p f"
  unfolding MSNA_def fdiv_def fmul_def u32_to_double_def CorrFact_def double_lit_def
  by (intro rnd_nonneg divide_nonneg_nonneg mult_nonneg_nonneg of_nat_0_le_iff) simp_all

lemma MSNA_representable: "0 < p \<Longrightarrow> representable p (MSNA p f)"
  unfolding MSNA_def fdiv_def fmul_def u32_to_double_def CorrFact_def double_lit_def
  by (intro representable_rnd rnd_nonneg divide_nonneg_nonneg mult_nonneg_nonneg of_nat_0_le_iff)
    simp_all

lemma u32_le: "(of_nat (unat (f :: u32)) :: rat) \<le> 4294967295"
proof -
  have "unat f < 2 ^ 32" using unsigned_less [of f] by simp
  then have "unat f \<le> 4294967295" by simp
  then have "(of_nat (unat f) :: rat) \<le> of_nat 4294967295" by (simp only: of_nat_le_iff)
  then show ?thesis by simp
qed

lemma MSNA_in_range:
  assumes "24 \<le> p"
  shows "MSNA p f < 1031"
proof -
  have "of_nat (unat f) * (999658117 / 1000000000 * 6 / 25000000) * (10000003 / 10000000)
      \<le> 4294967295 * (999658117 / 1000000000 * 6 / 25000000) * (10000003 / 10000000 :: rat)"
    using u32_le [of f] by (intro mult_right_mono) simp_all
  also have "\<dots> < 1031" by simp
  finally show ?thesis using MSNA_bounds(2) [OF assms, of f] by simp
qed

lemma uint_word_of_int_small: "0 \<le> k \<Longrightarrow> k < 4294967296 \<Longrightarrow> uint (word_of_int k :: u32) = k"
  by (simp add: uint_word_of_int)

lemma MSNAa_floor:
  assumes "24 \<le> p"
  shows "uint (MSNAa p f) = \<lfloor>MSNA p f\<rfloor>"
proof -
  have 0: "0 \<le> \<lfloor>MSNA p f\<rfloor>" using MSNA_nonneg [of p f] by simp
  have "\<lfloor>MSNA p f\<rfloor> < 1031" using MSNA_in_range [OF assms, of f] by (simp add: floor_less_iff)
  then have 1: "\<lfloor>MSNA p f\<rfloor> < 4294967296" by simp
  have "MSNAa p f = word_of_int \<lfloor>MSNA p f\<rfloor>"
    using MSNA_nonneg [of p f] by (simp add: MSNAa_def double_to_u32_def double_trunc_def)
  then show ?thesis using uint_word_of_int_small [OF 0 1] by simp
qed

lemma of_nat_unat_uint: "(of_nat (unat (w :: u32)) :: rat) = of_int (uint w)"
  by (metis of_int_of_nat_eq uint_nat)

lemma MSNA_frac:
  assumes "24 \<le> p"
  shows "fsub p (MSNA p f) (u32_to_double p (MSNAa p f)) = MSNA p f - of_int \<lfloor>MSNA p f\<rfloor>"
proof -
  have p: "0 < p" using assms by simp
  note r = MSNA_representable [OF p, of f]
  note ff = representable_floor_frac [OF r MSNA_nonneg]
  have "u32_to_double p (MSNAa p f) = rnd p (of_int \<lfloor>MSNA p f\<rfloor>)"
    unfolding u32_to_double_def of_nat_unat_uint MSNAa_floor [OF assms] ..
  also have "\<dots> = of_int \<lfloor>MSNA p f\<rfloor>"
    using ff(1) MSNA_nonneg [of p f] by (intro rnd_id) simp_all
  finally have a: "u32_to_double p (MSNAa p f) = of_int \<lfloor>MSNA p f\<rfloor>" .
  have "0 \<le> MSNA p f - of_int \<lfloor>MSNA p f\<rfloor>" by linarith
  with ff(2) show ?thesis unfolding fsub_def a by (rule rnd_id)
qed

lemma MSNA_frac_bounds:
  assumes "24 \<le> p"
  shows "0 \<le> MSNA p f - of_int \<lfloor>MSNA p f\<rfloor>"
    and "MSNA p f - of_int \<lfloor>MSNA p f\<rfloor> \<le> 1 - 2 powi (- int p)"
proof -
  have p: "0 < p" using assms by simp
  note ff = representable_floor_frac [OF MSNA_representable [OF p, of f] MSNA_nonneg]
  show 0: "0 \<le> MSNA p f - of_int \<lfloor>MSNA p f\<rfloor>" by linarith
  have 1: "MSNA p f - of_int \<lfloor>MSNA p f\<rfloor> < 1" by linarith
  show "MSNA p f - of_int \<lfloor>MSNA p f\<rfloor> \<le> 1 - 2 powi (- int p)"
    using ff(2) 0 1 p by (rule representable_lt_1)
qed

lemma MSNAb_product:
  assumes "24 \<le> p"
  shows "fmul p (fsub p (MSNA p f) (u32_to_double p (MSNAa p f))) (u32_to_double p MSNAc)
    = rnd p ((MSNA p f - of_int \<lfloor>MSNA p f\<rfloor>) * 1048575)"
proof -
  have "unat MSNAc = 1048575" by (simp add: MSNAc_def)
  then have "u32_to_double p MSNAc = rnd p 1048575"
    unfolding u32_to_double_def by simp
  then show ?thesis
    unfolding fmul_def MSNA_frac [OF assms] rnd_1048575 [OF assms] by simp
qed

lemma MSNAb_product_bounds:
  assumes "24 \<le> p"
  shows "0 \<le> rnd p ((MSNA p f - of_int \<lfloor>MSNA p f\<rfloor>) * 1048575)"
    and "rnd p ((MSNA p f - of_int \<lfloor>MSNA p f\<rfloor>) * 1048575) < 1048575"
proof -
  define fr where "fr = MSNA p f - of_int \<lfloor>MSNA p f\<rfloor>"
  define e :: rat where "e = 2 powi (- int p)"
  note fb = MSNA_frac_bounds [OF assms, of f, folded fr_def e_def]
  have e: "0 < e" by (simp add: e_def)
  have x: "0 \<le> fr * 1048575" using fb(1) by simp
  show "0 \<le> rnd p (fr * 1048575)" using x by (rule rnd_nonneg)
  have "rnd p (fr * 1048575) \<le> fr * 1048575 + fr * 1048575 * e"
    using rnd_rel_err [OF x, of p, folded e_def] by linarith
  also have "\<dots> = fr * (1048575 * (1 + e))" by (simp add: algebra_simps)
  also have "\<dots> \<le> (1 - e) * (1048575 * (1 + e))"
    using fb(2) e by (intro mult_right_mono) simp_all
  also have "\<dots> = 1048575 - 1048575 * (e * e)" by (simp add: algebra_simps)
  also have "\<dots> < 1048575" using e by simp
  finally show "rnd p (fr * 1048575) < 1048575" .
qed

lemma MSNAb_floor:
  assumes "24 \<le> p"
  shows "uint (MSNAb p f) = \<lfloor>rnd p ((MSNA p f - of_int \<lfloor>MSNA p f\<rfloor>) * 1048575)\<rfloor>"
proof -
  note b = MSNAb_product_bounds [OF assms, of f]
  have 0: "0 \<le> \<lfloor>rnd p ((MSNA p f - of_int \<lfloor>MSNA p f\<rfloor>) * 1048575)\<rfloor>"
    using b(1) by simp
  have "\<lfloor>rnd p ((MSNA p f - of_int \<lfloor>MSNA p f\<rfloor>) * 1048575)\<rfloor> < 1048575"
    using b(2) by (simp add: floor_less_iff)
  then have 1: "\<lfloor>rnd p ((MSNA p f - of_int \<lfloor>MSNA p f\<rfloor>) * 1048575)\<rfloor> < 4294967296"
    by simp
  have "MSNAb p f = word_of_int \<lfloor>rnd p ((MSNA p f - of_int \<lfloor>MSNA p f\<rfloor>) * 1048575)\<rfloor>"
    unfolding MSNAb_def MSNAb_product [OF assms]
    using b(1) by (simp add: double_to_u32_def double_trunc_def)
  then show ?thesis using uint_word_of_int_small [OF 0 1] by simp
qed

lemma MSNAb_in_range:
  assumes "24 \<le> p"
  shows "uint (MSNAb p f) < 1048575"
  unfolding MSNAb_floor [OF assms]
  using MSNAb_product_bounds(2) [OF assms, of f] by (simp add: floor_less_iff)

lemma uint_128_mult:
  fixes b :: u32
  assumes "uint b < 1048575"
  shows "uint (128 * b) = 128 * uint b"
proof -
  have "0 \<le> uint b" by simp
  then have "128 * uint b < 2 ^ 32" "0 \<le> 128 * uint b" using assms by simp_all
  then have "(128 * uint b) mod 2 ^ 32 = 128 * uint b" by (intro mod_pos_pos_trivial)
  then show ?thesis by (simp add: uint_word_ariths)
qed

lemma uint_128_div:
  fixes b :: u32
  assumes "uint b < 1048575"
  shows "uint (128 * b div MSNAc) = 128 * uint b div 1048575"
  unfolding uint_div uint_128_mult [OF assms] by (simp add: MSNAc_def)

lemma pack_P2_uint:
  fixes b :: u32
  assumes "uint b < 1048575"
  shows "uint (pack_P2 b) = 128 * uint b - 1048575 * (128 * uint b div 1048575)"
proof -
  define q where "q = 128 * uint b div 1048575"
  have b0: "0 \<le> uint b" by simp
  have "0 \<le> 128 * uint b" using b0 by simp
  then have q0: "0 \<le> q" unfolding q_def by (simp add: pos_imp_zdiv_nonneg_iff)
  have "q < 128" using assms by (simp add: q_def)
  with q0 have q: "0 \<le> q" "q < 128" by simp_all
  have uq: "uint (128 * b div MSNAc) = q" unfolding q_def by (rule uint_128_div [OF assms])
  have uc: "uint MSNAc = 1048575" by (simp add: MSNAc_def)
  have lt: "uint MSNAc * uint (128 * b div MSNAc) < 2 ^ LENGTH(32)"
    unfolding uq uc using q by simp
  have um: "uint (MSNAc * (128 * b div MSNAc)) = 1048575 * q"
    using iffD1 [OF uint_mult_lem lt] unfolding uq uc .
  have "1048575 * q \<le> 128 * uint b" unfolding q_def by simp
  then have le: "uint (MSNAc * (128 * b div MSNAc)) \<le> uint (128 * b)"
    unfolding um uint_128_mult [OF assms] .
  show ?thesis
    using iffD1 [OF uint_sub_lem le]
    unfolding pack_P2_def um uint_128_mult [OF assms] q_def .
qed

lemma pack_P1_uint_mod:
  fixes a b :: u32
  assumes "uint b < 1048575"
  shows "uint (pack_P1 a b) = (128 * uint a + 128 * uint b div 1048575 - 512) mod 2 ^ 32"
proof -
  have Q: "word_of_int (128 * uint b div 1048575) = 128 * b div MSNAc"
    using uint_128_div [OF assms] by (metis word_of_int_uint)
  have e: "pack_P1 a b = word_of_int (128 * uint a + 128 * uint b div 1048575 - 512)"
    unfolding pack_P1_def by (simp add: Q)
  show ?thesis unfolding e uint_word_of_int by simp
qed

lemma pack_P1_uint:
  fixes a b :: u32
  assumes "uint b < 1048575" "4 \<le> uint a" "uint a < 1031"
  shows "uint (pack_P1 a b) = 128 * uint a + 128 * uint b div 1048575 - 512"
proof -
  have "0 \<le> uint b" by simp
  then have "0 \<le> 128 * uint b" by simp
  then have "0 \<le> 128 * uint b div 1048575" by (simp add: pos_imp_zdiv_nonneg_iff)
  moreover have "128 * uint b div 1048575 < 128"
    using assms(1) by simp
  ultimately have "0 \<le> 128 * uint b div 1048575" "128 * uint b div 1048575 < 128"
    by simp_all
  then have "0 \<le> 128 * uint a + 128 * uint b div 1048575 - 512"
    "128 * uint a + 128 * uint b div 1048575 - 512 < 2 ^ 32"
    using assms(2,3) by simp_all
  then show ?thesis
    unfolding pack_P1_uint_mod [OF assms(1)] by (rule mod_pos_pos_trivial)
qed

lemma rnd_0 [simp]: "rnd p 0 = 0"
  by (simp add: rnd_def)

lemma calc_0: "MSNA p 0 = 0 \<and> MSNAa p 0 = 0 \<and> MSNAb p 0 = 0"
proof -
  have m: "MSNA p 0 = 0"
    by (simp add: MSNA_def fdiv_def fmul_def u32_to_double_def)
  have a: "MSNAa p 0 = 0"
    by (simp add: MSNAa_def m double_to_u32_def double_trunc_def)
  have "MSNAb p 0 = 0"
    by (simp add: MSNAb_def m a fmul_def fsub_def u32_to_double_def double_to_u32_def double_trunc_def)
  with m a show ?thesis by simp
qed

lemma MSNAa_band:
  assumes "24 \<le> p" "in_band f"
  shows "23 \<le> uint (MSNAa p f)" "uint (MSNAa p f) \<le> 35"
proof -
  define n :: rat where "n = of_nat (unat f)"
  have "(of_nat 100000000 :: rat) \<le> of_nat (unat f)" "(of_nat (unat f) :: rat) \<le> of_nat 150000000"
    using assms(2) unfolding in_band_def by (simp_all only: of_nat_le_iff)
  then have n: "100000000 \<le> n" "n \<le> 150000000" by (simp_all add: n_def)
  note b = MSNA_bounds [OF assms(1), of f, folded n_def]
  have "23 \<le> MSNA p f" using b(1) n(1) by simp
  then show "23 \<le> uint (MSNAa p f)"
    unfolding MSNAa_floor [OF assms(1)] by (simp add: le_floor_iff)
  have "MSNA p f < 36" using b(2) n(2) by simp
  then have "\<lfloor>MSNA p f\<rfloor> < 36" by (simp add: floor_less_iff)
  then show "uint (MSNAa p f) \<le> 35"
    unfolding MSNAa_floor [OF assms(1)] by simp
qed

lemma MSNAa_ge_4:
  assumes "24 \<le> p" "16672373 \<le> unat f"
  shows "4 \<le> uint (MSNAa p f)"
proof -
  define n :: rat where "n = of_nat (unat f)"
  have "(of_nat 16672373 :: rat) \<le> of_nat (unat f)"
    using assms(2) by (simp only: of_nat_le_iff)
  then have n: "16672373 \<le> n" by (simp add: n_def)
  note b = MSNA_bounds [OF assms(1), of f, folded n_def]
  have "4 \<le> MSNA p f" using b(1) n by simp
  then show ?thesis
    unfolding MSNAa_floor [OF assms(1)] by (simp add: le_floor_iff)
qed

lemma MSNAa_lt_1031:
  assumes "24 \<le> p"
  shows "uint (MSNAa p f) < 1031"
  unfolding MSNAa_floor [OF assms]
  using MSNA_in_range [OF assms, of f] by (simp add: floor_less_iff)

lemma unat_less_if_uint: "uint (w :: u32) < int n \<Longrightarrow> unat w < n"
  by (metis uint_nat of_nat_less_iff)

lemma unat_le_if_uint: "uint (w :: u32) \<le> int n \<Longrightarrow> unat w \<le> n"
  by (metis uint_nat of_nat_le_iff)

lemma unat_ge_if_uint: "int n \<le> uint (w :: u32) \<Longrightarrow> n \<le> unat w"
  by (metis uint_nat of_nat_le_iff)

lemma of_nat_MSNAa:
  assumes "24 \<le> p"
  shows "(of_nat (unat (MSNAa p f)) :: rat) = of_int \<lfloor>MSNA p f\<rfloor>"
  unfolding of_nat_unat_uint MSNAa_floor [OF assms] ..

lemma of_nat_MSNAb:
  assumes "24 \<le> p"
  shows "(of_nat (unat (MSNAb p f)) :: rat)
    = of_int \<lfloor>rnd p ((MSNA p f - of_int \<lfloor>MSNA p f\<rfloor>) * 1048575)\<rfloor>"
  unfolding of_nat_unat_uint MSNAb_floor [OF assms] ..

lemma of_nat_MSNAc: "(of_nat (unat MSNAc) :: rat) = 1048575"
proof -
  have "unat MSNAc = 1048575" by (simp add: MSNAc_def)
  then show ?thesis by (simp only: of_nat_numeral)
qed

section \<open>The events of one call\<close>

lemma I2CFlexiWrite_txn:
  "I2CFlexiWrite T reg b0 True b1 b2 b3 b4 b5 b6 b7 s = s @ txn reg [b0, b1, b2, b3, b4, b5, b6, b7]"
  by (simp add: I2CFlexiWrite_def Wire_beginTransmission_def Wire_write_def
      Wire_endTransmission_def txn_def)

lemma I2CFlexiWrite1_txn:
  "I2CFlexiWrite1 T reg b0 s = s @ txn reg [b0]"
  by (simp add: I2CFlexiWrite1_def I2CFlexiWrite_def Wire_beginTransmission_def Wire_write_def
      Wire_endTransmission_def txn_def)

lemma set_freq_Hz_events:
  "set_freq_Hz p T f s =
     s @ txn 24 [0x00] @ txn 3 [0xFF] @ txn 16 [0x80, 0x80, 0x80, 0x80, 0x80, 0x80, 0x80, 0x80]
       @ txn 15 [0x00] @ txn 183 [0x02] @ txn 42 [0, 1, 0, 1, 0, 0, 0, 0]
       @ txn 26 (feedback_bytes (MSNA_P1 p f) (MSNA_P2 p f) MSNA_P3)
       @ txn 16 [0x4F] @ [DelayMicroseconds 500] @ txn 177 [0x20] @ txn 3 [0x00]"
  by (simp add: set_freq_Hz_def I2CFlexiWrite_txn I2CFlexiWrite1_txn delayMicroseconds_def
      feedback_bytes_def Let_def)

lemma scan_bytes:
  "scan (Some cs) (map WireWrite bs @ es) = scan (Some (cs @ bs)) es"
  by (induction bs arbitrary: cs) simp_all

lemma scan_txn:
  "scan None (txn r bs @ es) = (r, bs) # scan None es"
  using scan_bytes [of "[r]" bs "EndTransmission # es"] by (simp add: txn_def)

lemma scan_delay:
  "scan None (DelayMicroseconds n # es) = scan None es"
  by simp

lemma transactions_of_call:
  "transactions
     (txn 24 [0x00] @ txn 3 [0xFF] @ txn 16 [0x80, 0x80, 0x80, 0x80, 0x80, 0x80, 0x80, 0x80]
       @ txn 15 [0x00] @ txn 183 [0x02] @ txn 42 [0, 1, 0, 1, 0, 0, 0, 0]
       @ txn 26 bs
       @ txn 16 [0x4F] @ [DelayMicroseconds 500] @ txn 177 [0x20] @ txn 3 [0x00]) =
     [(24, [0x00]), (3, [0xFF]), (16, [0x80, 0x80, 0x80, 0x80, 0x80, 0x80, 0x80, 0x80]),
      (15, [0x00]), (183, [0x02]), (42, [0, 1, 0, 1, 0, 0, 0, 0]), (26, bs),
      (16, [0x4F]), (177, [0x20]), (3, [0x00])]"
  unfolding transactions_def
  apply (simp only: scan_txn scan_delay append_Cons append_Nil)
  using scan_txn [of 3 "[0]" "[]"] apply simp
  done

lemma drop_own: "drop (length s) (s @ es) = es"
  by simp

lemma transactions_set_freq_Hz:
  "transactions (drop (length s) (set_freq_Hz p T f s)) =
     [(24, [0x00]), (3, [0xFF]), (16, [0x80, 0x80, 0x80, 0x80, 0x80, 0x80, 0x80, 0x80]),
      (15, [0x00]), (183, [0x02]), (42, [0, 1, 0, 1, 0, 0, 0, 0]),
      (26, feedback_bytes (MSNA_P1 p f) (MSNA_P2 p f) MSNA_P3),
      (16, [0x4F]), (177, [0x20]), (3, [0x00])]"
  unfolding set_freq_Hz_events by (simp only: drop_own transactions_of_call)

lemma is_read_txn: "filter is_read (txn r bs) = []"
  by (induction bs) (simp_all add: txn_def is_read_def)

lemma is_delay_txn: "filter is_delay (txn r bs) = []"
  by (induction bs) (simp_all add: txn_def is_delay_def)

lemma written_by_8:
  "written_by r [b0, b1, b2, b3, b4, b5, b6, b7] = {r, r + 1, r + 2, r + 3, r + 4, r + 5, r + 6, r + 7}"
  by (simp add: add.assoc)

lemma bit_byte_of_0F:
  "bit (byte_of x n 0x0F) i \<longleftrightarrow> i < 4 \<and> bit x (n + i)"
proof -
  have m: "(0x0F :: u32) = mask 4" by (simp add: mask_eq_exp_minus_1)
  show ?thesis
    unfolding byte_of_def m by (auto simp: bit_simps)
qed

lemma bit_byte_of_F0:
  "bit (byte_of x n 0xF0) i \<longleftrightarrow> 4 \<le> i \<and> i < 8 \<and> bit x (n + i)"
proof -
  have m: "(0xF0 :: u32) = push_bit 4 (mask 4)" by (simp add: mask_eq_exp_minus_1)
  show ?thesis
    unfolding byte_of_def m by (auto simp: bit_simps)
qed

lemma byte_disjoint: "byte_of P3 12 0xF0 AND byte_of P2 16 0x0F = 0"
  by (rule bit_eqI) (simp add: bit_and_iff bit_byte_of_0F bit_byte_of_F0)

lemma reg31_eq_plus: "reg31 P2 P3 = byte_of P3 12 0xF0 + byte_of P2 16 0x0F"
  by (simp add: reg31_def)

lemma reg31_eq_or: "reg31 P2 P3 = byte_of P3 12 0xF0 OR byte_of P2 16 0x0F"
  unfolding reg31_eq_plus by (rule disjunctive_add_eq_or) (rule byte_disjoint)

lemma reg31_bit:
  "bit (reg31 P2 P3) i \<longleftrightarrow> (i < 4 \<and> bit P2 (16 + i)) \<or> (4 \<le> i \<and> i < 8 \<and> bit P3 (12 + i))"
  by (auto simp: reg31_eq_or bit_or_iff bit_byte_of_0F bit_byte_of_F0)

lemma reg31_no_carry:
  "uint (reg31 P2 P3) = uint (byte_of P3 12 0xF0) + uint (byte_of P2 16 0x0F)"
proof -
  have "uint (byte_of P3 12 0xF0) AND uint (byte_of P2 16 0x0F) = uint (0 :: u8)"
    unfolding byte_disjoint [of P3 P2, symmetric] by (simp only: uint_and)
  then have "uint (byte_of P3 12 0xF0) + uint (byte_of P2 16 0x0F)
      = uint (byte_of P3 12 0xF0) OR uint (byte_of P2 16 0x0F)"
    by (intro disjunctive_add_eq_or) simp
  then show ?thesis
    by (simp only: reg31_eq_or uint_or)
qed


section \<open>The sequence of writes\<close>

text \<open>
  C2, as the specification states it: one call issues exactly nine write operations. It
  does not: the call issues ten.
\<close>

theorem nine_writes_counterexample:
  "length (transactions (drop (length ([] :: bus))
      (set_freq_Hz 53 ideal_transport 136000000 []))) \<noteq> 9"
  by (simp only: transactions_set_freq_Hz) simp

text \<open>
  C2, amended. For every input frequency, whatever the bus has seen before and whatever
  the transport answers, one call appends exactly the following events: the ten write
  transactions to registers 24, 3, 16 (the burst of eight bytes 0x80 that powers down the
  drivers of CLK0 to CLK7), 15, 183, 42 (burst), 26 (burst with the calculated bytes) and
  16, then the delay of 500 microseconds, then the writes to registers 177 and 3. The
  delay is the only one, and it lies between the clock control write (register 16, 0x4F)
  and the PLL reset write (register 177).
\<close>

theorem ten_writes_in_order:
  "set_freq_Hz p T f s =
     s @ (txn 24 [0x00] @ txn 3 [0xFF]
          @ txn 16 [0x80, 0x80, 0x80, 0x80, 0x80, 0x80, 0x80, 0x80]
          @ txn 15 [0x00] @ txn 183 [0x02] @ txn 42 [0, 1, 0, 1, 0, 0, 0, 0]
          @ txn 26 (feedback_bytes (MSNA_P1 p f) (MSNA_P2 p f) MSNA_P3)
          @ txn 16 [0x4F])
       @ [DelayMicroseconds 500]
       @ (txn 177 [0x20] @ txn 3 [0x00])
   \<and> transactions (drop (length s) (set_freq_Hz p T f s)) =
     [(24, [0x00]), (3, [0xFF]), (16, [0x80, 0x80, 0x80, 0x80, 0x80, 0x80, 0x80, 0x80]),
      (15, [0x00]), (183, [0x02]), (42, [0, 1, 0, 1, 0, 0, 0, 0]),
      (26, feedback_bytes (MSNA_P1 p f) (MSNA_P2 p f) MSNA_P3),
      (16, [0x4F]), (177, [0x20]), (3, [0x00])]
   \<and> filter is_delay (drop (length s) (set_freq_Hz p T f s)) = [DelayMicroseconds 500]"
proof -
  have "filter is_delay (drop (length s) (set_freq_Hz p T f s)) = [DelayMicroseconds 500]"
    unfolding set_freq_Hz_events
    by (simp only: drop_own filter_append is_delay_txn) (simp add: is_delay_def)
  then show ?thesis
    using set_freq_Hz_events [of p T f s] transactions_set_freq_Hz [of s p T f] by simp
qed

theorem ten_writes_in_order_witness:
  "length (transactions (drop (length ([] :: bus))
      (set_freq_Hz 53 ideal_transport 136000000 []))) = 10
   \<and> filter is_delay (drop (length ([] :: bus))
      (set_freq_Hz 53 ideal_transport 136000000 [])) = [DelayMicroseconds 500]"
  by (simp only: ten_writes_in_order [of 53 ideal_transport 136000000 "[]", THEN conjunct2]) simp

section \<open>The registers touched\<close>

text \<open>
  C8. For every input frequency, the registers one call writes are exactly the fixed set
  \<open>fixed_registers\<close>: 3, 15, 16 to 23, 24, 26 to 33, 42 to 49, 177 and 183. No other
  register is written, and the call never reads from the bus.
\<close>

theorem only_fixed_registers:
  "registers_written (transactions (drop (length s) (set_freq_Hz p T f s))) = fixed_registers
   \<and> filter is_read (drop (length s) (set_freq_Hz p T f s)) = []"
proof -
  have r: "filter is_read (drop (length s) (set_freq_Hz p T f s)) = []"
    unfolding set_freq_Hz_events
    by (simp only: drop_own filter_append is_read_txn) (simp add: is_read_def)
  have "registers_written (transactions (drop (length s) (set_freq_Hz p T f s))) = fixed_registers"
    unfolding transactions_set_freq_Hz feedback_bytes_def fixed_registers_def
    by (simp only: registers_written.simps written_by_8) auto
  with r show ?thesis by simp
qed

theorem only_fixed_registers_witness:
  "registers_written (transactions (drop (length ([] :: bus))
      (set_freq_Hz 53 ideal_transport 136000000 []))) = fixed_registers
   \<and> 2 \<notin> fixed_registers \<and> 25 \<notin> fixed_registers"
  by (simp only: only_fixed_registers [of "[]" 53 ideal_transport 136000000, THEN conjunct1])
    (simp add: fixed_registers_def)

section \<open>No error channel\<close>



section \<open>Determinism\<close>

text \<open>
  C7. The register triple is a function of the target frequency alone (and of the
  constants of the program): the burst that a call writes to registers 26 to 33 is
  \<open>feedback_bytes\<close> of \<open>MSNA_P1\<close>, \<open>MSNA_P2\<close> and \<open>MSNA_P3\<close> at that frequency,
  whatever the earlier history \<open>s\<close> of the bus and whatever the transport \<open>T\<close>
  answers. Two calls with the same frequency, from any two states, issue the same events.
\<close>

theorem calculator_pure:
  "transactions (drop (length s) (set_freq_Hz p T f s)) ! 6 =
     (26, feedback_bytes (MSNA_P1 p f) (MSNA_P2 p f) MSNA_P3)
   \<and> drop (length s) (set_freq_Hz p T f s) = drop (length s') (set_freq_Hz p T' f s')"
  using transactions_set_freq_Hz [of s p T f] set_freq_Hz_events [of p T f s]
    set_freq_Hz_events [of p T' f s']
  by simp

section \<open>The regression vector: 136 MHz\<close>

lemma calc_53_136MHz:
  "fmul 53 (u32_to_double 53 136000000) (CorrFact 53) = 2280921301088469 / 16777216
   \<and> MSNA 53 136000000 = 2296050560841737 / 70368744177664 \<and> MSNAa 53 136000000 = 32 \<and> MSNAb 53 136000000 = 659386"
proof -
  have unat_lit: "unat (136000000 :: u32) = 136000000" "unat (32 :: u32) = 32" "unat (1048575 :: u32) = 1048575"
    by simp_all
  have x0: "rnd 53 (136000000) = 136000000"
    by (subst rnd_eval_nearest [of "27" _ _ "4563402752000000"]) simp_all
  have cf: "rnd 53 (999658117 / 1000000000) = 9004119846438183 / 9007199254740992"
    by (subst rnd_eval_nearest [of "-1" _ _ "9004119846438183"]) simp_all
  have six: "rnd 53 (6) = 6"
    by (subst rnd_eval_nearest [of "2" _ _ "6755399441055744"]) simp_all
  have ref: "rnd 53 (25000000) = 25000000"
    by (subst rnd_eval_nearest [of "24" _ _ "6710886400000000"]) simp_all
  have x1: "rnd 53 (136000000 * (9004119846438183 / 9007199254740992)) = 2280921301088469 / 16777216"
    by (subst rnd_eval_nearest [of "27" _ _ "4561842602176938"]) simp_all
  have t: "fmul 53 (u32_to_double 53 136000000) (CorrFact 53) = 2280921301088469 / 16777216"
    unfolding fmul_def u32_to_double_def CorrFact_def double_lit_def
    by (simp only: unat_lit of_nat_numeral x0 cf x1)
  have x2: "rnd 53 ((2280921301088469 / 16777216) * 6) = 6842763903265407 / 8388608"
    by (subst rnd_eval_nearest [of "29" _ _ "6842763903265407"]) simp_all
  have x3: "rnd 53 ((6842763903265407 / 8388608) / 25000000) = 2296050560841737 / 70368744177664"
    by (subst rnd_eval_nearest [of "5" _ _ "4592101121683474"]) simp_all
  have m: "MSNA 53 136000000 = 2296050560841737 / 70368744177664"
    unfolding MSNA_def fdiv_def fmul_def u32_to_double_def CorrFact_def double_lit_def
    by (simp only: unat_lit of_nat_numeral x0 cf six ref x1 x2 x3)
  have a: "MSNAa 53 136000000 = 32"
    unfolding MSNAa_def m by (subst double_to_u32_eval [of "32"]) simp_all
  have ad: "rnd 53 (32) = 32"
    by (subst rnd_eval_nearest [of "5" _ _ "4503599627370496"]) simp_all
  have frc: "rnd 53 ((2296050560841737 / 70368744177664) - 32) = 44250747156489 / 70368744177664"
    by (subst rnd_eval_nearest [of "-1" _ _ "5664095636030592"]) simp_all
  have cd: "rnd 53 (1048575) = 1048575"
    by (subst rnd_eval_nearest [of "19" _ _ "9007190664806400"]) simp_all
  have bd: "rnd 53 ((44250747156489 / 70368744177664) * 1048575) = 2832045117164029 / 4294967296"
    by (subst rnd_eval_nearest [of "19" _ _ "5664090234328058"]) simp_all
  have b: "MSNAb 53 136000000 = 659386"
    unfolding MSNAb_def fmul_def fsub_def u32_to_double_def MSNAc_def m a
    by (simp only: unat_lit of_nat_numeral ad frc cd bd) (subst double_to_u32_eval [of "659386"], simp_all)
  show ?thesis using t m a b by simp
qed

lemma calc_24_136MHz:
  "fmul 24 (u32_to_double 24 136000000) (CorrFact 24) = 135953504
   \<and> MSNA 24 136000000 = 8553455 / 262144 \<and> MSNAa 24 136000000 = 32 \<and> MSNAb 24 136000000 = 659387"
proof -
  have unat_lit: "unat (136000000 :: u32) = 136000000" "unat (32 :: u32) = 32" "unat (1048575 :: u32) = 1048575"
    by simp_all
  have x0: "rnd 24 (136000000) = 136000000"
    by (subst rnd_eval_nearest [of "27" _ _ "8500000"]) simp_all
  have cf: "rnd 24 (999658117 / 1000000000) = 2096435 / 2097152"
    by (subst rnd_eval_nearest [of "-1" _ _ "16771480"]) simp_all
  have six: "rnd 24 (6) = 6"
    by (subst rnd_eval_nearest [of "2" _ _ "12582912"]) simp_all
  have ref: "rnd 24 (25000000) = 25000000"
    by (subst rnd_eval_nearest [of "24" _ _ "12500000"]) simp_all
  have x1: "rnd 24 (136000000 * (2096435 / 2097152)) = 135953504"
    by (subst rnd_eval_nearest [of "27" _ _ "8497094"]) simp_all
  have t: "fmul 24 (u32_to_double 24 136000000) (CorrFact 24) = 135953504"
    unfolding fmul_def u32_to_double_def CorrFact_def double_lit_def
    by (simp only: unat_lit of_nat_numeral x0 cf x1)
  have x2: "rnd 24 (135953504 * 6) = 815721024"
    by (subst rnd_eval_nearest [of "29" _ _ "12745641"]) simp_all
  have x3: "rnd 24 (815721024 / 25000000) = 8553455 / 262144"
    by (subst rnd_eval_nearest [of "5" _ _ "8553455"]) simp_all
  have m: "MSNA 24 136000000 = 8553455 / 262144"
    unfolding MSNA_def fdiv_def fmul_def u32_to_double_def CorrFact_def double_lit_def
    by (simp only: unat_lit of_nat_numeral x0 cf six ref x1 x2 x3)
  have a: "MSNAa 24 136000000 = 32"
    unfolding MSNAa_def m by (subst double_to_u32_eval [of "32"]) simp_all
  have ad: "rnd 24 (32) = 32"
    by (subst rnd_eval_nearest [of "5" _ _ "8388608"]) simp_all
  have frc: "rnd 24 ((8553455 / 262144) - 32) = 164847 / 262144"
    by (subst rnd_eval_nearest [of "-1" _ _ "10550208"]) simp_all
  have cd: "rnd 24 (1048575) = 1048575"
    by (subst rnd_eval_nearest [of "19" _ _ "16777200"]) simp_all
  have bd: "rnd 24 ((164847 / 262144) * 1048575) = 5275099 / 8"
    by (subst rnd_eval_nearest [of "19" _ _ "10550198"]) simp_all
  have b: "MSNAb 24 136000000 = 659387"
    unfolding MSNAb_def fmul_def fsub_def u32_to_double_def MSNAc_def m a
    by (simp only: unat_lit of_nat_numeral ad frc cd bd) (subst double_to_u32_eval [of "659387"], simp_all)
  show ?thesis using t m a b by simp
qed

text \<open>
  C1, as the specification states it: at 136,000,000 Hz the corrected target is about
  136,046,196.6 Hz, the ratio about 32.65109 and \<open>b\<close> about 682,752. The code
  multiplies the target by the correction factor 0.999658117, so the corrected target
  is below the target, the ratio is below 32.63, and \<open>b\<close> is 23,366 (with a 64-bit
  \<open>double\<close>) or 23,365 (with a 32-bit one) below 682,752.
\<close>

theorem scenario_136MHz_counterexample:
  "fmul 53 (u32_to_double 53 136000000) (CorrFact 53) < 136000000
   \<and> fmul 24 (u32_to_double 24 136000000) (CorrFact 24) < 136000000
   \<and> MSNA 53 136000000 < 3263 / 100
   \<and> MSNA 24 136000000 < 3263 / 100
   \<and> unat (MSNAb 53 136000000) + 23366 = 682752
   \<and> unat (MSNAb 24 136000000) + 23365 = 682752"
  using calc_53_136MHz calc_24_136MHz by simp

text \<open>
  C1, amended. At 136,000,000 Hz the corrected target is the target times the
  correction factor, 135,953,503.9 Hz to the tenth of a hertz; the ratio is 32.62884
  to five places, \<open>a = 32\<close>, \<open>c = 1,048,575\<close>, and \<open>b = 659,386\<close> with a 64-bit
  \<open>double\<close> (\<open>659,387\<close> with a 32-bit one, where the corrected target is rounded to
  135,953,504). The packed fields are those of the packing formulas:
  \<open>P1 = 128 * 32 + 80 - 512 = 3664\<close>, \<open>P2 = 128 * b - c * 80\<close>, which is 515,408
  (515,536 with a 32-bit \<open>double\<close>), and \<open>P3 = c\<close>.
\<close>

theorem scenario_136MHz:
  "\<bar>fmul 53 (u32_to_double 53 136000000) (CorrFact 53) - 1359535039 / 10\<bar> < 1 / 10
   \<and> \<bar>MSNA 53 136000000 - 3262884 / 100000\<bar> < 1 / 100000
   \<and> MSNAa 53 136000000 = 32
   \<and> MSNAb 53 136000000 = 659386
   \<and> MSNAc = 1048575
   \<and> MSNA_P1 53 136000000 = 3664
   \<and> MSNA_P2 53 136000000 = 515408
   \<and> MSNA_P3 = 1048575
   \<and> (3664 :: int) = 128 * 32 + 128 * 659386 div 1048575 - 512
   \<and> (515408 :: int) = 128 * 659386 - 1048575 * (128 * 659386 div 1048575)
   \<and> fmul 24 (u32_to_double 24 136000000) (CorrFact 24) = 135953504
   \<and> \<bar>MSNA 24 136000000 - 3262884 / 100000\<bar> < 1 / 100000
   \<and> MSNAa 24 136000000 = 32
   \<and> MSNAb 24 136000000 = 659387
   \<and> MSNA_P1 24 136000000 = 3664
   \<and> MSNA_P2 24 136000000 = 515536
   \<and> (515536 :: int) = 128 * 659387 - 1048575 * (128 * 659387 div 1048575)"
  using calc_53_136MHz calc_24_136MHz
  by (simp add: MSNA_P1_def MSNA_P2_def MSNA_P3_def pack_P1_def pack_P2_def MSNAc_def)

section \<open>The synthesizer fraction\<close>

text \<open>
  C6. For every input frequency the synthesizer fraction satisfies its invariant: the
  ratio is not negative and below 1031, so that \<open>a\<close> is exactly its integer part;
  \<open>c\<close> is \<open>2^20 - 1\<close>; the floating-point product that is truncated to \<open>b\<close> is
  below \<open>c\<close>, and so \<open>b < c\<close>. This holds for every significand of at least 24
  bits, hence for a 32-bit and for a 64-bit \<open>double\<close>.
\<close>

theorem fraction_invariant:
  assumes "24 \<le> p"
  shows "0 \<le> MSNA p f \<and> uint (MSNAa p f) = \<lfloor>MSNA p f\<rfloor>
    \<and> unat MSNAc = 2 ^ 20 - 1
    \<and> fmul p (fsub p (MSNA p f) (u32_to_double p (MSNAa p f))) (u32_to_double p MSNAc)
        < of_nat (unat MSNAc)
    \<and> unat (MSNAb p f) < unat MSNAc"
proof -
  have c: "unat MSNAc = 1048575" by (simp add: MSNAc_def)
  have b: "unat (MSNAb p f) < 1048575"
    using MSNAb_in_range [OF assms, of f] by (intro unat_less_if_uint) simp
  have "fmul p (fsub p (MSNA p f) (u32_to_double p (MSNAa p f))) (u32_to_double p MSNAc)
      < 1048575"
    unfolding MSNAb_product [OF assms] by (rule MSNAb_product_bounds(2) [OF assms])
  then show ?thesis
    using MSNA_nonneg [of p f] MSNAa_floor [OF assms, of f] b unfolding c by simp
qed

theorem fraction_invariant_witness:
  "(24 :: nat) \<le> 53 \<and> unat (MSNAb 53 136000000) < unat MSNAc
   \<and> uint (MSNAa 53 136000000) = \<lfloor>MSNA 53 136000000\<rfloor>"
  using fraction_invariant [of 53 136000000] by simp

section \<open>The packed fields\<close>

text \<open>
  C3, as the specification states it: for every input frequency
  \<open>P1 = 128 * a + floor(128 * b / c) - 512\<close>. At 0 Hz the fraction is \<open>a = 0\<close>,
  \<open>b = 0\<close>, the formula gives \<open>-512\<close>, and the unsigned 32-bit field holds
  4294966784.
\<close>

theorem packing_counterexample:
  "uint (MSNAa 53 0) = 0 \<and> uint (MSNAb 53 0) = 0 \<and> uint (MSNA_P1 53 0) = 4294966784
   \<and> uint (MSNA_P1 53 0)
       \<noteq> 128 * uint (MSNAa 53 0) + 128 * uint (MSNAb 53 0) div uint MSNAc - 512"
  using calc_0 [of 53] by (simp add: MSNA_P1_def pack_P1_def MSNAc_def)

text \<open>
  C3, amended. For every input frequency \<open>P2 = 128 * b - c * floor(128 * b / c)\<close> and
  \<open>P3 = c\<close> hold exactly, and \<open>P1\<close> is \<open>128 * a + floor(128 * b / c) - 512\<close> reduced
  modulo \<open>2^32\<close>. \<open>P1\<close> equals the formula exactly whenever \<open>a \<ge> 4\<close>, which is the
  case for every frequency of at least 16,672,373 Hz.
\<close>

theorem packing_formulas:
  assumes "24 \<le> p"
  shows "uint (MSNA_P2 p f)
      = 128 * uint (MSNAb p f) - uint MSNAc * (128 * uint (MSNAb p f) div uint MSNAc)
    \<and> MSNA_P3 = MSNAc
    \<and> uint (MSNA_P1 p f)
      = (128 * uint (MSNAa p f) + 128 * uint (MSNAb p f) div uint MSNAc - 512) mod 2 ^ 32
    \<and> (4 \<le> uint (MSNAa p f) \<longrightarrow> uint (MSNA_P1 p f)
      = 128 * uint (MSNAa p f) + 128 * uint (MSNAb p f) div uint MSNAc - 512)
    \<and> (16672373 \<le> unat f \<longrightarrow> 4 \<le> uint (MSNAa p f))"
proof -
  have c: "uint MSNAc = 1048575" by (simp add: MSNAc_def)
  note b = MSNAb_in_range [OF assms, of f]
  have 1: "uint (MSNA_P2 p f)
      = 128 * uint (MSNAb p f) - uint MSNAc * (128 * uint (MSNAb p f) div uint MSNAc)"
    unfolding MSNA_P2_def c by (rule pack_P2_uint [OF b])
  have 2: "uint (MSNA_P1 p f)
      = (128 * uint (MSNAa p f) + 128 * uint (MSNAb p f) div uint MSNAc - 512) mod 2 ^ 32"
    unfolding MSNA_P1_def c by (rule pack_P1_uint_mod [OF b])
  have 3: "uint (MSNA_P1 p f)
      = 128 * uint (MSNAa p f) + 128 * uint (MSNAb p f) div uint MSNAc - 512"
    if "4 \<le> uint (MSNAa p f)"
    unfolding MSNA_P1_def c by (rule pack_P1_uint [OF b that MSNAa_lt_1031 [OF assms]])
  have 4: "4 \<le> uint (MSNAa p f)" if "16672373 \<le> unat f"
    using assms that by (rule MSNAa_ge_4)
  show ?thesis using 1 2 3 4 by (simp add: MSNA_P3_def)
qed

theorem packing_formulas_witness:
  "(24 :: nat) \<le> 53 \<and> 16672373 \<le> unat (136000000 :: u32) \<and> 4 \<le> uint (MSNAa 53 136000000)
   \<and> uint (MSNA_P1 53 136000000)
      = 128 * uint (MSNAa 53 136000000) + 128 * uint (MSNAb 53 136000000) div uint MSNAc - 512"
proof -
  have p: "(24 :: nat) \<le> 53" and f: "16672373 \<le> unat (136000000 :: u32)" by simp_all
  note t = packing_formulas [OF p, of 136000000]
  from t f have a: "4 \<le> uint (MSNAa 53 136000000)" by blast
  with t have "uint (MSNA_P1 53 136000000)
      = 128 * uint (MSNAa 53 136000000) + 128 * uint (MSNAb 53 136000000) div uint MSNAc - 512"
    by blast
  with p f a show ?thesis by blast
qed

text \<open>
  C4. For every target frequency in the supported band, 100 MHz to 150 MHz,
  \<open>0 \<le> P2 < c\<close>, \<open>P1\<close> fits in 18 bits, and \<open>P2\<close> and \<open>P3\<close> fit in 20 bits.
  In the band \<open>a\<close> lies between 23 and 35, so \<open>P1\<close> is at most 4095.
\<close>

theorem field_widths:
  assumes "24 \<le> p" "in_band f"
  shows "unat (MSNA_P2 p f) < unat MSNAc
    \<and> unat (MSNA_P1 p f) < 2 ^ 18
    \<and> unat (MSNA_P2 p f) < 2 ^ 20
    \<and> unat MSNA_P3 < 2 ^ 20
    \<and> 23 \<le> unat (MSNAa p f) \<and> unat (MSNAa p f) \<le> 35"
proof -
  have c: "unat MSNAc = 1048575" by (simp add: MSNAc_def)
  note b = MSNAb_in_range [OF assms(1), of f]
  note a = MSNAa_band [OF assms]
  have b0: "0 \<le> uint (MSNAb p f)" by simp
  have "uint (MSNA_P2 p f) = 128 * uint (MSNAb p f) mod 1048575"
    unfolding MSNA_P2_def pack_P2_uint [OF b] by (simp add: minus_mult_div_eq_mod)
  then have "uint (MSNA_P2 p f) < 1048575" by simp
  then have p2: "unat (MSNA_P2 p f) < 1048575" by (intro unat_less_if_uint) simp
  have a4: "4 \<le> uint (MSNAa p f)" using a(1) by simp
  have a1031: "uint (MSNAa p f) < 1031" using a(2) by simp
  have "128 * uint (MSNAb p f) div 1048575 < 128" using b by simp
  then have "uint (MSNA_P1 p f) < 4096"
    unfolding MSNA_P1_def pack_P1_uint [OF b a4 a1031] using a(2) by simp
  then have p1: "unat (MSNA_P1 p f) < 4096" by (intro unat_less_if_uint) simp
  have "23 \<le> unat (MSNAa p f)" using a(1) by (intro unat_ge_if_uint) simp
  moreover have "unat (MSNAa p f) \<le> 35" using a(2) by (intro unat_le_if_uint) simp
  ultimately have "23 \<le> unat (MSNAa p f)" "unat (MSNAa p f) \<le> 35" by simp_all
  then show ?thesis using p1 p2 unfolding c by (simp add: MSNA_P3_def MSNAc_def)
qed

theorem field_widths_witness:
  "(24 :: nat) \<le> 53 \<and> in_band 136000000
   \<and> unat (MSNA_P2 53 136000000) < unat MSNAc \<and> unat (MSNA_P1 53 136000000) < 2 ^ 18"
  using field_widths [of 53 136000000] by (simp add: in_band_def)

section \<open>The round trip\<close>

text \<open>
  C5. For every target frequency in the supported band the frequency rebuilt from
  \<open>(a, b, c)\<close> differs from the target by at most one part in \<open>2^20\<close> of the target.
\<close>

theorem round_trip:
  assumes "24 \<le> p" "in_band f"
  shows "\<bar>reconstructed (MSNAa p f) (MSNAb p f) - of_nat (unat f)\<bar> * 2 ^ 20 \<le> of_nat (unat f)"
proof -
  define n :: rat where "n = of_nat (unat f)"
  define M where "M = MSNA p f"
  define A :: rat where "A = of_int \<lfloor>M\<rfloor>"
  define bd where "bd = rnd p ((M - A) * 1048575)"
  define t :: rat where "t = of_int \<lfloor>bd\<rfloor>"
  have "(of_nat 100000000 :: rat) \<le> of_nat (unat f)"
    using assms(2) unfolding in_band_def by (simp only: of_nat_le_iff)
  then have n: "100000000 \<le> n" by (simp add: n_def)
  note mb = MSNA_bounds [OF assms(1), of f, folded n_def M_def]
  have fr: "0 \<le> M - A" "M - A < 1" unfolding A_def by linarith+
  have x: "0 \<le> (M - A) * 1048575" using fr(1) by simp
  note bb = rnd_between [OF assms(1) x order_refl order_refl, folded bd_def]
  have t: "t \<le> bd" "bd < t + 1" unfolding t_def by linarith+
  have r: "reconstructed (MSNAa p f) (MSNAb p f)
      = 25000000 * (A + t / 1048575) / 6 / (999658117 / 1000000000)"
    unfolding reconstructed_def of_nat_MSNAa [OF assms(1)] of_nat_MSNAb [OF assms(1)] of_nat_MSNAc
      t_def bd_def A_def M_def ..
  have up: "(25000000 * (A + t / 1048575) / 6 / (999658117 / 1000000000) - n) * 2 ^ 20 \<le> n"
    using n mb fr bb t by simp
  have lo: "(n - 25000000 * (A + t / 1048575) / 6 / (999658117 / 1000000000)) * 2 ^ 20 \<le> n"
    using n mb fr bb t by simp
  show ?thesis
    unfolding r n_def [symmetric] using up lo by (simp add: abs_if)
qed

theorem round_trip_witness:
  "(24 :: nat) \<le> 53 \<and> in_band 136000000
   \<and> \<bar>reconstructed (MSNAa 53 136000000) (MSNAb 53 136000000) - 136000000\<bar> * 2 ^ 20
       \<le> 136000000"
  using round_trip [of 53 136000000] by (simp add: in_band_def)

section \<open>Register 31\<close>

text \<open>
  C10. The burst that \<open>set_freq_Hz\<close> writes at register 26 is the only write that
  reaches register 31: its sixth data byte is stored there, and after the call register
  31 holds that byte, whatever the register held before. The byte is the sum of
  \<open>(P3 >> 12) & 0xF0\<close> and \<open>(P2 >> 16) & 0x0F\<close>, for the \<open>P2\<close> and \<open>P3\<close> the call
  has calculated. The two addends have no bit in common, so the sum has no carry (it is
  the sum of the two bytes as integers) and equals their bitwise OR. Bits 0 to 3 of the
  byte are bits 16 to 19 of P2, bits 4 to 7 are bits 16 to 19 of P3. The arithmetic
  holds for all 32-bit P2 and P3, in particular for those below \<open>2^20\<close>.
\<close>

theorem reg31_nibbles:
  "register_image (transactions (drop (length s) (set_freq_Hz p T f s))) m 31
     = Some (reg31 (MSNA_P2 p f) MSNA_P3)
   \<and> filter (\<lambda>t. 31 \<in> written_by (fst t) (snd t))
        (transactions (drop (length s) (set_freq_Hz p T f s)))
     = [(26, feedback_bytes (MSNA_P1 p f) (MSNA_P2 p f) MSNA_P3)]
   \<and> feedback_bytes (MSNA_P1 p f) (MSNA_P2 p f) MSNA_P3 ! 5 = reg31 (MSNA_P2 p f) MSNA_P3
   \<and> (26 :: u8) + 5 = 31
   \<and> byte_of P3 12 0xF0 AND byte_of P2 16 0x0F = 0
   \<and> uint (reg31 P2 P3) = uint (byte_of P3 12 0xF0) + uint (byte_of P2 16 0x0F)
   \<and> reg31 P2 P3 = byte_of P3 12 0xF0 OR byte_of P2 16 0x0F
   \<and> bit (reg31 P2 P3) i = (i < 4 \<and> bit P2 (16 + i) \<or> 4 \<le> i \<and> i < 8 \<and> bit P3 (12 + i))"
proof -
  have 1: "register_image (transactions (drop (length s) (set_freq_Hz p T f s))) m 31
     = Some (reg31 (MSNA_P2 p f) MSNA_P3)"
    unfolding transactions_set_freq_Hz feedback_bytes_def by simp
  have 2: "filter (\<lambda>t. 31 \<in> written_by (fst t) (snd t))
        (transactions (drop (length s) (set_freq_Hz p T f s)))
     = [(26, feedback_bytes (MSNA_P1 p f) (MSNA_P2 p f) MSNA_P3)]"
    unfolding transactions_set_freq_Hz feedback_bytes_def by simp
  have 3: "feedback_bytes (MSNA_P1 p f) (MSNA_P2 p f) MSNA_P3 ! 5 = reg31 (MSNA_P2 p f) MSNA_P3"
    by (simp add: feedback_bytes_def)
  show ?thesis
    using 1 2 3 byte_disjoint [of P3 P2] reg31_no_carry [of P2 P3] reg31_eq_or [of P2 P3]
      reg31_bit [of P2 P3 i]
    by simp
qed

theorem reg31_nibbles_witness:
  "register_image (transactions (drop (length ([] :: bus))
      (set_freq_Hz 53 ideal_transport 136000000 []))) Map.empty 31 = Some 0xF7
   \<and> reg31 0x7DD50 0xFFFFF = 0xF7
   \<and> uint (reg31 0x7DD50 0xFFFFF) = uint (byte_of 0xFFFFF 12 0xF0) + uint (byte_of 0x7DD50 16 0x0F)"
proof -
  note t = reg31_nibbles [of "[]" 53 ideal_transport 136000000 Map.empty "0xFFFFF" "0x7DD50" 0]
  have v: "reg31 (MSNA_P2 53 136000000) MSNA_P3 = 0xF7"
    using calc_53_136MHz
    by (simp add: MSNA_P2_def MSNA_P3_def pack_P2_def MSNAc_def reg31_def byte_of_def)
  have "register_image (transactions (drop (length ([] :: bus))
      (set_freq_Hz 53 ideal_transport 136000000 []))) Map.empty 31 = Some 0xF7"
    using t v by (simp only:)
  moreover have "reg31 0x7DD50 0xFFFFF = 0xF7" by (simp add: reg31_def byte_of_def)
  moreover have "uint (reg31 0x7DD50 0xFFFFF)
      = uint (byte_of 0xFFFFF 12 0xF0) + uint (byte_of 0x7DD50 16 0x0F)"
    using t by (elim conjE)
  ultimately show ?thesis by (simp only: simp_thms)
qed

end
